theory Spec2Isabelle
  imports Complex_Main "HOL-Library.AList" "HOL-Library.Product_Lexorder"
begin

section \<open>Floor plan data\<close>

text \<open>
  The floor description read by \<^verbatim>\<open>backend/graph_builder.py\<close>: a dictionary with the
  optional keys \<^verbatim>\<open>floor_id\<close>, \<^verbatim>\<open>rooms\<close> and \<^verbatim>\<open>doors\<close>. A key that may be absent is an
  \<open>option\<close>: the \<^verbatim>\<open>name\<close> and the \<^verbatim>\<open>bounds\<close> of a room, which the floor description and
  the validator of \<^verbatim>\<open>data-processor/parser.py\<close> allow to be missing, and the \<^verbatim>\<open>connects\<close>
  of a door, which the code tests for. The keys that every floor description has
  (\<^verbatim>\<open>id\<close> and \<^verbatim>\<open>center\<close> of a room, \<^verbatim>\<open>id\<close> and \<^verbatim>\<open>position\<close> of a door, the coordinates)
  are plain fields. Python numbers are modelled as reals and identifiers as strings.
\<close>

record point =
  p_x :: real
  p_y :: real

record bounds =
  b_x :: real
  b_y :: real
  b_width :: real
  b_height :: real

record room =
  room_id :: string
  room_name :: "string option"
  room_center :: point
  room_bounds :: "bounds option"

record door =
  door_id :: string
  door_position :: point
  door_connects :: "string list option"

record floor_data =
  fd_floor_id :: "string option"
  fd_rooms :: "room list option"
  fd_doors :: "door list option"

text \<open>Python exceptions, each with its message.\<close>

datatype exn =
    ValueError string
  | KeyError string
  | NodeNotFound string
  | NetworkXNoPath string
  | NetworkXUnbounded string
  | NetworkXError string
  | UnboundLocalError string

text \<open>\<^verbatim>\<open>str(e)\<close>: the message; for a KeyError the quoted key.\<close>

fun exn_str :: "exn \<Rightarrow> string" where
  "exn_str (ValueError m) = m"
| "exn_str (KeyError k) = [CHR 0x27] @ k @ [CHR 0x27]"
| "exn_str (NodeNotFound m) = m"
| "exn_str (NetworkXNoPath m) = m"
| "exn_str (NetworkXUnbounded m) = m"
| "exn_str (NetworkXError m) = m"
| "exn_str (UnboundLocalError m) = m"

section \<open>The graph object\<close>

text \<open>
  The graphs of this program are \<^verbatim>\<open>networkx.Graph\<close> objects: a dictionary from node to
  its attribute dictionary and a dictionary from node to its neighbours, each neighbour
  with the attribute dictionary of the edge. Python dictionaries keep insertion order,
  and the searches below iterate in that order, so both are association lists. The two
  dictionaries of a \<^verbatim>\<open>networkx.Graph\<close> always have the same keys in the same order, so one
  list holds both: an entry is (node, attributes, neighbours).
\<close>

record node_data =
  n_type :: "string option"
  n_name :: "string option"
  n_center :: "point option"
  n_bounds :: "bounds option"

record edge_data =
  e_type :: "string option"
  weight :: "real option"
  e_door_id :: "string option"
  e_position :: "point option"

type_synonym adjacency = "(string \<times> edge_data) list"
type_synonym graph = "(string \<times> node_data \<times> adjacency) list"

definition empty_node :: node_data where
  "empty_node = \<lparr>n_type = None, n_name = None, n_center = None, n_bounds = None\<rparr>"

definition empty_edge :: edge_data where
  "empty_edge = \<lparr>e_type = None, weight = None, e_door_id = None, e_position = None\<rparr>"

definition nodes_of :: "graph \<Rightarrow> string list" where
  "nodes_of g = map fst g"

definition has_node :: "graph \<Rightarrow> string \<Rightarrow> bool" where
  "has_node g n = (n \<in> set (nodes_of g))"

text \<open>\<^verbatim>\<open>G._adj[n]\<close>: the neighbours of a node, \<open>None\<close> where Python raises KeyError.\<close>

definition adj :: "graph \<Rightarrow> string \<Rightarrow> adjacency option" where
  "adj g n = map_option snd (map_of g n)"

definition neighbors :: "graph \<Rightarrow> string \<Rightarrow> string list" where
  "neighbors g n = (case adj g n of None \<Rightarrow> [] | Some nb \<Rightarrow> map fst nb)"

text \<open>\<^verbatim>\<open>G[u][v]\<close>, the attributes of the edge from u to v.\<close>

definition edge_attrs :: "graph \<Rightarrow> string \<Rightarrow> string \<Rightarrow> edge_data option" where
  "edge_attrs g u v = (case adj g u of None \<Rightarrow> None | Some nb \<Rightarrow> map_of nb v)"

definition has_edge :: "graph \<Rightarrow> string \<Rightarrow> string \<Rightarrow> bool" where
  "has_edge g u v = (edge_attrs g u v \<noteq> None)"

text \<open>
  \<^verbatim>\<open>G.add_node(n, **attr)\<close>: a new node is appended with the given attributes and no
  neighbours; for a node already present only the attributes are updated. The keyword
  arguments are the function \<open>upd\<close> on the attribute dictionary.
\<close>

definition add_node :: "graph \<Rightarrow> string \<Rightarrow> (node_data \<Rightarrow> node_data) \<Rightarrow> graph" where
  "add_node g n upd =
     (if has_node g n then AList.map_entry n (\<lambda>(a, nb). (upd a, nb)) g
      else g @ [(n, upd empty_node, [])])"

definition set_adj :: "graph \<Rightarrow> string \<Rightarrow> string \<Rightarrow> edge_data \<Rightarrow> graph" where
  "set_adj g u v dd = AList.map_entry u (\<lambda>(a, nb). (a, AList.update v dd nb)) g"

text \<open>
  \<^verbatim>\<open>G.add_edge(u, v, **attr)\<close>: an endpoint that is not a node yet is added without
  attributes; the attribute dictionary of the edge (a fresh one when the edge is new) is
  updated and stored under both directions.
\<close>

definition add_edge :: "graph \<Rightarrow> string \<Rightarrow> string \<Rightarrow> (edge_data \<Rightarrow> edge_data) \<Rightarrow> graph" where
  "add_edge g u v upd =
     (let g1 = (if has_node g u then g else g @ [(u, empty_node, [])]);
          g2 = (if has_node g1 v then g1 else g1 @ [(v, empty_node, [])]);
          dd = upd (case edge_attrs g2 u v of None \<Rightarrow> empty_edge | Some d \<Rightarrow> d)
      in set_adj (set_adj g2 u v dd) v u dd)"

text \<open>
  \<^verbatim>\<open>G.remove_node(n)\<close>: raises NetworkXError for an unknown node; otherwise the node is
  deleted from the neighbours of each of its neighbours, then deleted itself.
\<close>

definition del_adj :: "string \<Rightarrow> string \<Rightarrow> graph \<Rightarrow> graph" where
  "del_adj n u g = AList.map_entry u (\<lambda>(a, nb). (a, AList.delete n nb)) g"

definition remove_node :: "graph \<Rightarrow> string \<Rightarrow> exn + graph" where
  "remove_node g n =
     (case adj g n of
        None \<Rightarrow> Inl (NetworkXError (''The node '' @ n @ '' is not in the graph.''))
      | Some nb \<Rightarrow> Inr (AList.delete n (fold (del_adj n) (map fst nb) g)))"

text \<open>
  \<^verbatim>\<open>G.edges(data=True)\<close> of an undirected graph: nodes in order, the neighbours of each in
  order, an edge reported from the endpoint that comes first (a neighbour that was
  already the reporting node is skipped).
\<close>

fun edges_from :: "graph \<Rightarrow> string list \<Rightarrow> (string \<times> string \<times> edge_data) list" where
  "edges_from [] seen = []"
| "edges_from ((n, a, nb) # g) seen =
     map (\<lambda>(v, d). (n, v, d)) (filter (\<lambda>(v, d). v \<notin> set seen) nb) @ edges_from g (n # seen)"

definition edges :: "graph \<Rightarrow> (string \<times> string \<times> edge_data) list" where
  "edges g = edges_from g []"

section \<open>GraphBuilder (backend/graph\_builder.py)\<close>

definition calculate_distance :: "point \<Rightarrow> point \<Rightarrow> real" where
  "calculate_distance pos1 pos2 =
     (let dx = p_x pos1 - p_x pos2; dy = p_y pos1 - p_y pos2
      in sqrt (dx * dx + dy * dy))"

definition room_attrs :: "string \<Rightarrow> point \<Rightarrow> bounds \<Rightarrow> node_data \<Rightarrow> node_data" where
  "room_attrs name center bnds a =
     a\<lparr>n_type := Some ''room'', n_name := Some name, n_center := Some center,
       n_bounds := Some bnds\<rparr>"

text \<open>
  One round of the loop of \<^verbatim>\<open>_add_room_nodes\<close>. The arguments of \<^verbatim>\<open>add_node\<close> are evaluated
  from left to right, and \<^verbatim>\<open>room['name']\<close>, \<^verbatim>\<open>room['bounds']\<close> raise KeyError for a room
  without that key; then the loop ends and the exception leaves \<^verbatim>\<open>build_graph\<close>.
\<close>

definition add_room :: "room \<Rightarrow> graph \<Rightarrow> exn + graph" where
  "add_room r g =
     (case room_name r of
        None \<Rightarrow> Inl (KeyError ''name'')
      | Some name \<Rightarrow>
          (case room_bounds r of
             None \<Rightarrow> Inl (KeyError ''bounds'')
           | Some bnds \<Rightarrow> Inr (add_node g (room_id r) (room_attrs name (room_center r) bnds))))"

fun add_rooms :: "room list \<Rightarrow> graph \<Rightarrow> exn + graph" where
  "add_rooms [] g = Inr g"
| "add_rooms (r # rs) g = (case add_room r g of Inl e \<Rightarrow> Inl e | Inr g' \<Rightarrow> add_rooms rs g')"

definition add_room_nodes :: "floor_data \<Rightarrow> graph \<Rightarrow> exn + graph" where
  "add_room_nodes fd g = (case fd_rooms fd of None \<Rightarrow> Inr g | Some rs \<Rightarrow> add_rooms rs g)"

definition door_attrs :: "door \<Rightarrow> edge_data \<Rightarrow> edge_data" where
  "door_attrs d e = e\<lparr>e_type := Some ''door'',
                      weight := Some (calculate_distance (door_position d) (door_position d)),
                      e_door_id := Some (door_id d),
                      e_position := Some (door_position d)\<rparr>"

definition add_door :: "door \<Rightarrow> graph \<Rightarrow> graph" where
  "add_door d g =
     (case door_connects d of
        Some [room1_id, room2_id] \<Rightarrow> add_edge g room1_id room2_id (door_attrs d)
      | _ \<Rightarrow> g)"

definition add_door_connections :: "floor_data \<Rightarrow> graph \<Rightarrow> graph" where
  "add_door_connections fd g =
     (case fd_doors fd of None \<Rightarrow> g | Some ds \<Rightarrow> fold add_door ds g)"

definition corridor_attrs :: "real \<Rightarrow> edge_data \<Rightarrow> edge_data" where
  "corridor_attrs distance e =
     e\<lparr>e_type := Some ''corridor'', weight := Some (distance * 1.2), e_position := None\<rparr>"

definition add_corridor :: "room \<Rightarrow> room \<Rightarrow> graph \<Rightarrow> graph" where
  "add_corridor room1 room2 g =
     (if has_edge g (room_id room1) (room_id room2) then g
      else let distance = calculate_distance (room_center room1) (room_center room2)
           in if distance < 200
              then add_edge g (room_id room1) (room_id room2) (corridor_attrs distance)
              else g)"

text \<open>The double loop \<^verbatim>\<open>for i, room1 in enumerate(rooms): for room2 in rooms[i+1:]\<close>.\<close>

fun corridor_loop :: "room list \<Rightarrow> graph \<Rightarrow> graph" where
  "corridor_loop [] g = g"
| "corridor_loop (room1 # rest) g = corridor_loop rest (fold (add_corridor room1) rest g)"

definition add_corridor_connections :: "floor_data \<Rightarrow> graph \<Rightarrow> graph" where
  "add_corridor_connections fd g =
     (case fd_rooms fd of None \<Rightarrow> g | Some rs \<Rightarrow> corridor_loop rs g)"

text \<open>\<^verbatim>\<open>not self.floor_data\<close>: the dictionary is empty.\<close>

definition no_floor_data :: "floor_data \<Rightarrow> bool" where
  "no_floor_data fd = (fd_floor_id fd = None \<and> fd_rooms fd = None \<and> fd_doors fd = None)"

text \<open>
  \<^verbatim>\<open>build_graph\<close>: the ValueError for an empty description, then the three passes on the
  cleared graph; an exception of the first pass leaves the method.
\<close>

definition build_graph :: "floor_data \<Rightarrow> exn + graph" where
  "build_graph fd =
     (if no_floor_data fd then Inl (ValueError ''No floor data provided'')
      else case add_room_nodes fd [] of
             Inl e \<Rightarrow> Inl e
           | Inr g \<Rightarrow> Inr (add_corridor_connections fd (add_door_connections fd g)))"

definition get_room_connections :: "graph \<Rightarrow> string \<Rightarrow> string list" where
  "get_room_connections g room = (if \<not> has_node g room then [] else neighbors g room)"

definition get_connection_type :: "graph \<Rightarrow> string \<Rightarrow> string \<Rightarrow> string option" where
  "get_connection_type g room1 room2 =
     (case edge_attrs g room1 room2 of None \<Rightarrow> None | Some d \<Rightarrow> e_type d)"

section \<open>The searches of networkx\<close>

text \<open>
  PathFinder and JohnsonPathfinder delegate every search to networkx. The routines they
  call are modelled here after the library (networkx 3): the search loops with their
  dictionaries, heaps and iteration order, since the path that is returned among several
  shortest ones depends on them. A dictionary that is only looked up is a map; a heap
  is the list of its entries, popped at the least (priority, counter) pair.
\<close>

text \<open>The weight of an edge as the searches read it: \<^verbatim>\<open>data.get('weight', 1)\<close>.\<close>

definition wt :: "edge_data \<Rightarrow> real" where
  "wt d = (case weight d of None \<Rightarrow> 1 | Some w \<Rightarrow> w)"

definition heappop :: "('a \<Rightarrow> real \<times> nat) \<Rightarrow> 'a list \<Rightarrow> 'a \<times> 'a list" where
  "heappop key q = (let m = arg_min_list key q in (m, remove1 m q))"

type_synonym heap_entry = "real \<times> nat \<times> string"

definition entry_key :: "heap_entry \<Rightarrow> real \<times> nat" where
  "entry_key = (\<lambda>(d, k, v). (d, k))"

subsection \<open>Dijkstra: \<^verbatim>\<open>nx.shortest_path_length(G, s, t, weight='weight')\<close>\<close>

text \<open>
  \<open>dst\<close> is the dictionary \<^verbatim>\<open>dist\<close> of settled distances.
  The loop over the neighbours of the node v just settled (\<^verbatim>\<open>_dijkstra_multisource\<close>):
  a settled neighbour that would get closer raises ValueError, a neighbour seen for the
  first time or at a smaller distance is pushed.
\<close>

fun dijkstra_relax ::
  "(string \<rightharpoonup> real) \<Rightarrow> real \<Rightarrow> adjacency \<Rightarrow> (string \<rightharpoonup> real) \<times> heap_entry list \<times> nat
     \<Rightarrow> exn + (string \<rightharpoonup> real) \<times> heap_entry list \<times> nat" where
  "dijkstra_relax dst dv [] st = Inr st"
| "dijkstra_relax dst dv ((u, e) # nb) (seen, fringe, c) =
     (let vu_dist = dv + wt e in
      case dst u of
        Some u_dist \<Rightarrow>
          if vu_dist < u_dist
          then Inl (ValueError ''('Contradictory paths found:', 'negative weights?')'')
          else dijkstra_relax dst dv nb (seen, fringe, c)
      | None \<Rightarrow>
          if seen u = None \<or> vu_dist < the (seen u)
          then dijkstra_relax dst dv nb (seen(u \<mapsto> vu_dist), fringe @ [(vu_dist, c, u)], Suc c)
          else dijkstra_relax dst dv nb (seen, fringe, c))"

function dijkstra_loop ::
  "graph \<Rightarrow> string \<Rightarrow> (string \<rightharpoonup> real) \<Rightarrow> (string \<rightharpoonup> real) \<Rightarrow> heap_entry list \<Rightarrow> nat
     \<Rightarrow> exn + (string \<rightharpoonup> real)" where
  "dijkstra_loop g target dst seen fringe c =
     (if fringe = [] then Inr dst
      else case heappop entry_key fringe of
        ((d, k, v), rest) \<Rightarrow>
          if dst v \<noteq> None then dijkstra_loop g target dst seen rest c
          else if v = target then Inr (dst(v \<mapsto> d))
          else (case adj g v of
                  None \<Rightarrow> Inl (KeyError v)
                | Some nb \<Rightarrow>
                    (case dijkstra_relax (dst(v \<mapsto> d)) d nb (seen, rest, c) of
                       Inl e \<Rightarrow> Inl e
                     | Inr (seen', fringe', c') \<Rightarrow>
                         dijkstra_loop g target (dst(v \<mapsto> d)) seen' fringe' c')))"
  by pat_completeness auto
termination
proof (relation "measures [\<lambda>(g, target, dst, seen, fringe, c).
                              card {n \<in> set (map fst g). dst n = None},
                            \<lambda>(g, target, dst, seen, fringe, c). length fringe]",
       goal_cases)
  case 1
  then show ?case by simp
next
  case (2 g target dst seen fringe c x1 rest d x2 k v)
  then have "rest = remove1 (d, k, v) fringe" "(d, k, v) \<in> set fringe"
    using arg_min_list_in[of fringe entry_key] by (auto simp: heappop_def Let_def)
  then have "length rest = length fringe - 1" "length fringe > 0"
    by (auto simp: length_remove1)
  then show ?case by simp
next
  case (3 g target dst seen fringe c x1 rest d x2 k v nb x2a seen' x2b fringe' c')
  then have "map_of g v \<noteq> None" by (auto simp: adj_def)
  then have v: "v \<in> set (map fst g)" by (simp add: map_of_eq_None_iff)
  have "{n \<in> set (map fst g). (dst(v \<mapsto> d)) n = None} \<subset> {n \<in> set (map fst g). dst n = None}"
    using v 3 by auto
  then have "card {n \<in> set (map fst g). (dst(v \<mapsto> d)) n = None}
             < card {n \<in> set (map fst g). dst n = None}"
    by (intro psubset_card_mono) auto
  then show ?case by simp
qed

declare dijkstra_loop.simps [simp del]

definition dijkstra_path_length :: "graph \<Rightarrow> string \<Rightarrow> string \<Rightarrow> exn + real" where
  "dijkstra_path_length g source target =
     (if \<not> has_node g source then Inl (NodeNotFound (''Node '' @ source @ '' not found in graph''))
      else if source = target then Inr 0
      else case dijkstra_loop g target Map.empty [source \<mapsto> 0] [(0, 0, source)] 1 of
             Inl e \<Rightarrow> Inl e
           | Inr lengths \<Rightarrow>
               (case lengths target of
                  None \<Rightarrow> Inl (NetworkXNoPath (''Node '' @ target @ '' not reachable from '' @ source))
                | Some d \<Rightarrow> Inr d))"

subsection \<open>Bidirectional Dijkstra: \<^verbatim>\<open>nx.shortest_path(G, s, t, weight='weight')\<close>\<close>

text \<open>
  \<^verbatim>\<open>nx.shortest_path\<close> with both endpoints and a weight returns the path of
  \<^verbatim>\<open>bidirectional_dijkstra\<close>. Its dictionaries come in pairs, [forward, backward];
  \<open>sel\<close> and \<open>put\<close> read and write the component of a direction
  (\<open>False\<close> is forward, direction 0).
\<close>

definition sel :: "bool \<Rightarrow> 'a \<times> 'a \<Rightarrow> 'a" where
  "sel back p = (if back then snd p else fst p)"

definition put :: "bool \<Rightarrow> 'a \<Rightarrow> 'a \<times> 'a \<Rightarrow> 'a \<times> 'a" where
  "put back x p = (if back then (fst p, x) else (x, snd p))"

record bidi_state =
  bd_paths :: "(string \<rightharpoonup> string list) \<times> (string \<rightharpoonup> string list)"
  bd_fringe :: "heap_entry list \<times> heap_entry list"
  bd_seen :: "(string \<rightharpoonup> real) \<times> (string \<rightharpoonup> real)"
  bd_count :: nat
  bd_final :: "(real \<times> string list) option"

text \<open>
  After a relaxation of w: when w has been seen from both sides and the total is better
  than the best path so far (or there is none yet), the two half paths are joined.
\<close>

definition bidi_meet :: "string \<Rightarrow> bidi_state \<Rightarrow> exn + bidi_state" where
  "bidi_meet w st =
     (case (fst (bd_seen st) w, snd (bd_seen st) w) of
        (Some s0, Some s1) \<Rightarrow>
          (let totaldist = s0 + s1 in
           if (case bd_final st of None \<Rightarrow> True | Some (finaldist, finalpath) \<Rightarrow> finaldist > totaldist)
           then (case snd (bd_paths st) w of
                   None \<Rightarrow> Inl (KeyError w)
                 | Some p1 \<Rightarrow>
                     (case fst (bd_paths st) w of
                        None \<Rightarrow> Inl (KeyError w)
                      | Some p0 \<Rightarrow> Inr (st\<lparr>bd_final := Some (totaldist, p0 @ tl (rev p1))\<rparr>)))
           else Inr st)
      | _ \<Rightarrow> Inr st)"

fun bidi_relax ::
  "bool \<Rightarrow> (string \<rightharpoonup> real) \<Rightarrow> string \<Rightarrow> real \<Rightarrow> adjacency \<Rightarrow> bidi_state \<Rightarrow> exn + bidi_state" where
  "bidi_relax back dd v dv [] st = Inr st"
| "bidi_relax back dd v dv ((w, d) # nb) st =
     (let vwLength = dv + wt d in
      case dd w of
        Some dw \<Rightarrow>
          if vwLength < dw
          then Inl (ValueError ''Contradictory paths found: negative weights?'')
          else bidi_relax back dd v dv nb st
      | None \<Rightarrow>
          if sel back (bd_seen st) w = None \<or> vwLength < the (sel back (bd_seen st) w)
          then (case sel back (bd_paths st) v of
                  None \<Rightarrow> Inl (KeyError v)
                | Some pv \<Rightarrow>
                    (case bidi_meet w
                            (st\<lparr>bd_seen := put back ((sel back (bd_seen st))(w \<mapsto> vwLength)) (bd_seen st),
                                bd_fringe := put back (sel back (bd_fringe st) @ [(vwLength, bd_count st, w)])
                                               (bd_fringe st),
                                bd_count := Suc (bd_count st),
                                bd_paths := put back ((sel back (bd_paths st))(w \<mapsto> pv @ [w])) (bd_paths st)\<rparr>) of
                       Inl e \<Rightarrow> Inl e
                     | Inr st' \<Rightarrow> bidi_relax back dd v dv nb st'))
          else bidi_relax back dd v dv nb st)"

text \<open>
  The main loop. \<open>dir\<close> is the direction of the previous round (the first round is
  forward); \<open>dists\<close> are the two dictionaries of settled distances.
\<close>

function bidi_loop ::
  "graph \<Rightarrow> string \<Rightarrow> bool \<Rightarrow> (string \<rightharpoonup> real) \<times> (string \<rightharpoonup> real) \<Rightarrow> bidi_state
     \<Rightarrow> exn + real \<times> string list" where
  "bidi_loop g msg dir dists st =
     (if fst (bd_fringe st) = [] \<or> snd (bd_fringe st) = [] then Inl (NetworkXNoPath msg)
      else case heappop entry_key (sel (\<not> dir) (bd_fringe st)) of
        ((d, k, v), rest) \<Rightarrow>
          if sel (\<not> dir) dists v \<noteq> None
          then bidi_loop g msg (\<not> dir) dists (st\<lparr>bd_fringe := put (\<not> dir) rest (bd_fringe st)\<rparr>)
          else if sel dir dists v \<noteq> None
          then (case bd_final st of
                  None \<Rightarrow> Inl (UnboundLocalError ''finaldist'')
                | Some r \<Rightarrow> Inr r)
          else (case adj g v of
                  None \<Rightarrow> Inl (KeyError v)
                | Some nb \<Rightarrow>
                    (case bidi_relax (\<not> dir) ((sel (\<not> dir) dists)(v \<mapsto> d)) v d nb
                            (st\<lparr>bd_fringe := put (\<not> dir) rest (bd_fringe st)\<rparr>) of
                       Inl e \<Rightarrow> Inl e
                     | Inr st' \<Rightarrow>
                         bidi_loop g msg (\<not> dir)
                           (put (\<not> dir) ((sel (\<not> dir) dists)(v \<mapsto> d)) dists) st')))"
  by pat_completeness auto
termination
proof (relation "measures [\<lambda>(g, msg, dir, dists, st).
                              card {n \<in> set (map fst g). fst dists n = None}
                              + card {n \<in> set (map fst g). snd dists n = None},
                            \<lambda>(g, msg, dir, dists, st).
                              length (fst (bd_fringe st)) + length (snd (bd_fringe st))]",
       goal_cases)
  case 1
  then show ?case by simp
next
  case (2 g msg dir dists st x1 rest d x2 k v)
  let ?fr = "sel (\<not> dir) (bd_fringe st)"
  from 2 have ne: "?fr \<noteq> []" by (auto simp: sel_def)
  from 2 have "rest = remove1 (d, k, v) ?fr" "(d, k, v) \<in> set ?fr"
    using arg_min_list_in[OF ne, of entry_key] by (auto simp: heappop_def Let_def)
  then have "length rest = length ?fr - 1" "length ?fr > 0"
    by (auto simp: length_remove1)
  then show ?case by (cases dir) (auto simp: sel_def put_def)
next
  case (3 g msg dir dists st x1 rest d x2 k v nb x2a)
  then have "map_of g v \<noteq> None" by (auto simp: adj_def)
  then have v: "v \<in> set (map fst g)" by (simp add: map_of_eq_None_iff)
  let ?m = "sel (\<not> dir) dists"
  have "{n \<in> set (map fst g). (?m(v \<mapsto> d)) n = None} \<subset> {n \<in> set (map fst g). ?m n = None}"
    using v 3 by auto
  then have "card {n \<in> set (map fst g). (?m(v \<mapsto> d)) n = None}
             < card {n \<in> set (map fst g). ?m n = None}"
    by (intro psubset_card_mono) auto
  then show ?case by (cases dir) (auto simp: sel_def put_def)
qed

declare bidi_loop.simps [simp del]

definition bidirectional_dijkstra :: "graph \<Rightarrow> string \<Rightarrow> string \<Rightarrow> exn + real \<times> string list" where
  "bidirectional_dijkstra g source target =
     (if \<not> has_node g source then Inl (NodeNotFound (''Source '' @ source @ '' is not in G''))
      else if \<not> has_node g target then Inl (NodeNotFound (''Target '' @ target @ '' is not in G''))
      else if source = target then Inr (0, [source])
      else bidi_loop g (''No path between '' @ source @ '' and '' @ target @ ''.'') True
             (Map.empty, Map.empty)
             \<lparr>bd_paths = ([source \<mapsto> [source]], [target \<mapsto> [target]]),
              bd_fringe = ([(0, 0, source)], [(0, 1, target)]),
              bd_seen = ([source \<mapsto> 0], [target \<mapsto> 0]),
              bd_count = 2,
              bd_final = None\<rparr>)"

subsection \<open>Bidirectional breadth-first search: \<^verbatim>\<open>nx.shortest_path(G, s, t)\<close>\<close>

text \<open>
  Without a weight \<^verbatim>\<open>nx.shortest_path\<close> returns \<^verbatim>\<open>bidirectional_shortest_path\<close>: two
  breadth-first searches, from the source along \<open>pred\<close> and from the target along
  \<open>succ\<close>, the smaller fringe expanded first. The value of a dictionary entry is the node
  it was reached from, \<open>None\<close> for the endpoint itself. The two directions run the same
  code with the dictionaries exchanged: \<open>mine\<close> is the dictionary that grows.
\<close>

type_synonym links = "string \<rightharpoonup> string option"

fun bfs_nbrs ::
  "string \<Rightarrow> string list \<Rightarrow> links \<Rightarrow> links \<Rightarrow> string list \<Rightarrow> links \<times> string list \<times> string option" where
  "bfs_nbrs v [] mine other fr = (mine, fr, None)"
| "bfs_nbrs v (w # ws) mine other fr =
     (if mine w = None
      then (if other w \<noteq> None then (mine(w \<mapsto> Some v), fr @ [w], Some w)
            else bfs_nbrs v ws (mine(w \<mapsto> Some v)) other (fr @ [w]))
      else (if other w \<noteq> None then (mine, fr, Some w)
            else bfs_nbrs v ws mine other fr))"

fun bfs_level ::
  "graph \<Rightarrow> string list \<Rightarrow> links \<Rightarrow> links \<Rightarrow> string list
     \<Rightarrow> exn + links \<times> string list \<times> string option" where
  "bfs_level g [] mine other fr = Inr (mine, fr, None)"
| "bfs_level g (v # vs) mine other fr =
     (case adj g v of
        None \<Rightarrow> Inl (KeyError v)
      | Some nb \<Rightarrow>
          (case bfs_nbrs v (map fst nb) mine other fr of
             (mine', fr', Some w) \<Rightarrow> Inr (mine', fr', Some w)
           | (mine', fr', None) \<Rightarrow> bfs_level g vs mine' other fr'))"

text \<open>Every name that occurs in a graph, as a node or as a neighbour.\<close>

definition names_of :: "graph \<Rightarrow> string set" where
  "names_of g = set (map fst g) \<union> (\<Union>(n, a, nb) \<in> set g. set (map fst nb))"

lemma bfs_nbrs_grows:
  "bfs_nbrs v ws mine other fr = (mine', fr', r) \<Longrightarrow>
     (\<forall>x. mine x \<noteq> None \<longrightarrow> mine' x \<noteq> None)
     \<and> (\<forall>x. mine' x \<noteq> None \<longrightarrow> mine x \<noteq> None \<or> x \<in> set ws)
     \<and> (fr' \<noteq> fr \<longrightarrow> (\<exists>x \<in> set ws. mine x = None \<and> mine' x \<noteq> None))"
proof (induction v ws mine other fr rule: bfs_nbrs.induct)
  case (1 v mine other fr)
  then show ?case by simp
next
  case (2 v w ws mine other fr)
  show ?case
  proof (cases "mine w = None")
    case True
    note mw = this
    show ?thesis
    proof (cases "other w = None")
      case False
      with mw "2.prems" have "mine' = mine(w \<mapsto> Some v)" "fr' = fr @ [w]" by auto
      with mw show ?thesis by auto
    next
      case True
      with mw "2.prems"
      have e: "bfs_nbrs v ws (mine(w \<mapsto> Some v)) other (fr @ [w]) = (mine', fr', r)" by simp
      from "2.IH"(1)[OF mw _ e] True
      have ih1: "\<forall>x. (mine(w \<mapsto> Some v)) x \<noteq> None \<longrightarrow> mine' x \<noteq> None"
        and ih2: "\<forall>x. mine' x \<noteq> None \<longrightarrow> (mine(w \<mapsto> Some v)) x \<noteq> None \<or> x \<in> set ws"
        by blast+
      have a: "mine' x \<noteq> None" if "mine x \<noteq> None" for x
        using ih1[rule_format, of x] that by (cases "x = w") auto
      have b: "mine x \<noteq> None \<or> x \<in> set (w # ws)" if "mine' x \<noteq> None" for x
        using ih2[rule_format, of x] that by (cases "x = w") auto
      from ih1[rule_format, of w] have "mine' w \<noteq> None" by simp
      with mw have c: "\<exists>x \<in> set (w # ws). mine x = None \<and> mine' x \<noteq> None" by auto
      from a b c show ?thesis by blast
    qed
  next
    case False
    note mw = this
    show ?thesis
    proof (cases "other w = None")
      case False
      with mw "2.prems" have "mine' = mine" "fr' = fr" by (auto split: if_splits)
      then show ?thesis by auto
    next
      case True
      with mw "2.prems" have e: "bfs_nbrs v ws mine other fr = (mine', fr', r)"
        by (auto split: if_splits)
      from "2.IH"(2)[OF mw _ e] True show ?thesis by auto
    qed
  qed
qed

lemma bfs_level_grows:
  "bfs_level g vs mine other fr = Inr (mine', fr', r) \<Longrightarrow>
     (\<forall>x. mine x \<noteq> None \<longrightarrow> mine' x \<noteq> None)
     \<and> (\<forall>x. mine' x \<noteq> None \<longrightarrow> mine x \<noteq> None \<or> x \<in> names_of g)
     \<and> (fr' \<noteq> fr \<longrightarrow> (\<exists>x \<in> names_of g. mine x = None \<and> mine' x \<noteq> None))"
proof (induction vs arbitrary: mine fr)
  case Nil
  then show ?case by simp
next
  case (Cons v vs)
  from Cons.prems obtain nb where nb: "adj g v = Some nb"
    by (auto split: option.splits)
  obtain m1 f1 r1 where s: "bfs_nbrs v (map fst nb) mine other fr = (m1, f1, r1)"
    by (cases "bfs_nbrs v (map fst nb) mine other fr") auto
  from nb have sub: "set (map fst nb) \<subseteq> names_of g"
    by (force simp: adj_def names_of_def dest!: map_of_SomeD)
  from bfs_nbrs_grows[OF s] sub
  have g1: "\<forall>x. mine x \<noteq> None \<longrightarrow> m1 x \<noteq> None"
    and g2: "\<forall>x. m1 x \<noteq> None \<longrightarrow> mine x \<noteq> None \<or> x \<in> names_of g"
    and g3: "f1 \<noteq> fr \<longrightarrow> (\<exists>x \<in> names_of g. mine x = None \<and> m1 x \<noteq> None)"
    by blast+
  show ?case
  proof (cases r1)
    case (Some w)
    with Cons.prems nb s have "mine' = m1" "fr' = f1" by auto
    with g1 g2 g3 show ?thesis by simp
  next
    case None
    with Cons.prems nb s have "bfs_level g vs m1 other f1 = Inr (mine', fr', r)" by auto
    from Cons.IH[OF this]
    have h1: "\<forall>x. m1 x \<noteq> None \<longrightarrow> mine' x \<noteq> None"
      and h2: "\<forall>x. mine' x \<noteq> None \<longrightarrow> m1 x \<noteq> None \<or> x \<in> names_of g"
      and h3: "fr' \<noteq> f1 \<longrightarrow> (\<exists>x \<in> names_of g. m1 x = None \<and> mine' x \<noteq> None)"
      by blast+
    from g1 h1 have a: "\<forall>x. mine x \<noteq> None \<longrightarrow> mine' x \<noteq> None" by blast
    from g2 h2 have b: "\<forall>x. mine' x \<noteq> None \<longrightarrow> mine x \<noteq> None \<or> x \<in> names_of g" by blast
    have c: "fr' \<noteq> fr \<longrightarrow> (\<exists>x \<in> names_of g. mine x = None \<and> mine' x \<noteq> None)"
      using g1 g3 h1 h3 by metis
    from a b c show ?thesis by blast
  qed
qed

definition bfs_todo :: "graph \<Rightarrow> links \<Rightarrow> nat" where
  "bfs_todo g m = card {n \<in> names_of g. m n = None}"

lemma finite_names_of: "finite (names_of g)"
  by (auto simp: names_of_def)

lemma bfs_level_todo:
  assumes "bfs_level g vs mine other [] = Inr (mine', fr', r)"
  shows "bfs_todo g mine' \<le> bfs_todo g mine"
    and "fr' \<noteq> [] \<Longrightarrow> bfs_todo g mine' < bfs_todo g mine"
proof -
  from bfs_level_grows[OF assms]
  have a: "\<forall>x. mine x \<noteq> None \<longrightarrow> mine' x \<noteq> None"
    and c: "fr' \<noteq> [] \<longrightarrow> (\<exists>x \<in> names_of g. mine x = None \<and> mine' x \<noteq> None)"
    by blast+
  from a have sub: "{n \<in> names_of g. mine' n = None} \<subseteq> {n \<in> names_of g. mine n = None}"
    by auto
  then show "bfs_todo g mine' \<le> bfs_todo g mine"
    unfolding bfs_todo_def by (intro card_mono) (auto simp: finite_names_of)
  assume "fr' \<noteq> []"
  with c obtain x where "x \<in> names_of g" "mine x = None" "mine' x \<noteq> None" by blast
  then have "x \<in> {n \<in> names_of g. mine n = None}" "x \<notin> {n \<in> names_of g. mine' n = None}"
    by auto
  with sub have "{n \<in> names_of g. mine' n = None} \<subset> {n \<in> names_of g. mine n = None}"
    by blast
  then show "bfs_todo g mine' < bfs_todo g mine"
    unfolding bfs_todo_def by (intro psubset_card_mono) (auto simp: finite_names_of)
qed

function bfs_loop ::
  "graph \<Rightarrow> string \<Rightarrow> links \<Rightarrow> links \<Rightarrow> string list \<Rightarrow> string list
     \<Rightarrow> exn + links \<times> links \<times> string" where
  "bfs_loop g msg pred succ forward_fringe reverse_fringe =
     (if forward_fringe = [] \<or> reverse_fringe = [] then Inl (NetworkXNoPath msg)
      else if length forward_fringe \<le> length reverse_fringe
      then (case bfs_level g forward_fringe pred succ [] of
              Inl e \<Rightarrow> Inl e
            | Inr (pred', fr', Some w) \<Rightarrow> Inr (pred', succ, w)
            | Inr (pred', fr', None) \<Rightarrow> bfs_loop g msg pred' succ fr' reverse_fringe)
      else (case bfs_level g reverse_fringe succ pred [] of
              Inl e \<Rightarrow> Inl e
            | Inr (succ', fr', Some w) \<Rightarrow> Inr (pred, succ', w)
            | Inr (succ', fr', None) \<Rightarrow> bfs_loop g msg pred succ' forward_fringe fr'))"
  by pat_completeness auto
termination
proof (relation "measure (\<lambda>(g, msg, pred, succ, ff, rf).
          2 * (bfs_todo g pred + bfs_todo g succ) + (if ff = [] \<or> rf = [] then 0 else 1))",
       goal_cases)
  case 1
  then show ?case by simp
next
  case (2 g msg pred succ ff rf x2 pred' x2a fr' x2b)
  then have l: "bfs_level g ff pred succ [] = Inr (pred', fr', None)" by simp
  from bfs_level_todo[OF l] 2 show ?case by (cases "fr' = []") auto
next
  case (3 g msg pred succ ff rf x2 succ' x2a fr' x2b)
  then have l: "bfs_level g rf succ pred [] = Inr (succ', fr', None)" by simp
  from bfs_level_todo[OF l] 3 show ?case by (cases "fr' = []") auto
qed

declare bfs_loop.simps [simp del]

text \<open>
  \<^verbatim>\<open>while w is not None: path.append(w); w = pred[w]\<close>: the walk back along a dictionary
  of links. It ends at an entry whose value is \<open>None\<close>, raises KeyError at a node without
  entry, and does not return when the links form a cycle.
\<close>

partial_function (option) chase :: "links \<Rightarrow> string option \<Rightarrow> string list \<Rightarrow> (exn + string list) option" where
  "chase m w path =
     (case w of
        None \<Rightarrow> Some (Inr path)
      | Some x \<Rightarrow>
          (case m x of
             None \<Rightarrow> Some (Inl (KeyError x))
           | Some w' \<Rightarrow> chase m w' (path @ [x])))"

declare chase.simps [code]

definition bidirectional_shortest_path :: "graph \<Rightarrow> string \<Rightarrow> string \<Rightarrow> (exn + string list) option" where
  "bidirectional_shortest_path g source target =
     (if \<not> has_node g source \<or> \<not> has_node g target
      then Some (Inl (NodeNotFound (''Either source '' @ source @ '' or target '' @ target @ '' is not in G'')))
      else case (if target = source then Inr ([target \<mapsto> None], [source \<mapsto> None], source)
                 else bfs_loop g (''No path between '' @ source @ '' and '' @ target @ ''.'')
                        [source \<mapsto> None] [target \<mapsto> None] [source] [target]) of
             Inl e \<Rightarrow> Some (Inl e)
           | Inr (pred, succ, w) \<Rightarrow>
               (case chase pred (Some w) [] of
                  None \<Rightarrow> None
                | Some (Inl e) \<Rightarrow> Some (Inl e)
                | Some (Inr path) \<Rightarrow>
                    (case succ (last (rev path)) of
                       None \<Rightarrow> Some (Inl (KeyError (last (rev path))))
                     | Some w' \<Rightarrow> chase succ w' (rev path))))"

subsection \<open>A*: \<^verbatim>\<open>nx.astar_path\<close> and \<^verbatim>\<open>nx.astar_path_length\<close>\<close>

text \<open>
  A queue entry is (priority, counter, node, cost to reach the node, parent).
  \<open>enqueued\<close> maps a node to the least cost it was pushed with and its heuristic value,
  \<open>explored\<close> maps an expanded node to its parent (\<open>None\<close> for the source). A node is
  expanded again when it is popped at a cost not above its enqueued one, so with a
  negative edge the costs may fall for ever: the loop is a partial function, and
  \<open>None\<close> is the search that does not return.
\<close>

type_synonym astar_entry = "real \<times> nat \<times> string \<times> real \<times> string option"

definition astar_key :: "astar_entry \<Rightarrow> real \<times> nat" where
  "astar_key = (\<lambda>(p, k, n, d, parent). (p, k))"

fun astar_relax ::
  "(string \<Rightarrow> real) \<Rightarrow> string \<Rightarrow> real \<Rightarrow> adjacency
     \<Rightarrow> (string \<rightharpoonup> real \<times> real) \<times> astar_entry list \<times> nat
     \<Rightarrow> (string \<rightharpoonup> real \<times> real) \<times> astar_entry list \<times> nat" where
  "astar_relax h curnode dst [] st = st"
| "astar_relax h curnode dst ((neighbor, w) # nb) (enqueued, queue, c) =
     (let ncost = dst + wt w in
      case enqueued neighbor of
        Some (qcost, hq) \<Rightarrow>
          if qcost \<le> ncost then astar_relax h curnode dst nb (enqueued, queue, c)
          else astar_relax h curnode dst nb
                 (enqueued(neighbor \<mapsto> (ncost, hq)),
                  queue @ [(ncost + hq, c, neighbor, ncost, Some curnode)], Suc c)
      | None \<Rightarrow>
          astar_relax h curnode dst nb
            (enqueued(neighbor \<mapsto> (ncost, h neighbor)),
             queue @ [(ncost + h neighbor, c, neighbor, ncost, Some curnode)], Suc c))"

text \<open>
  Whether a popped node is skipped: it is the source, explored already, or it was
  enqueued at a smaller cost since this entry was pushed.
\<close>

definition astar_skip ::
  "links \<Rightarrow> (string \<rightharpoonup> real \<times> real) \<Rightarrow> string \<Rightarrow> real \<Rightarrow> exn + bool" where
  "astar_skip explored enqueued curnode dst =
     (case explored curnode of
        None \<Rightarrow> Inr False
      | Some None \<Rightarrow> Inr True
      | Some (Some parent) \<Rightarrow>
          (case enqueued curnode of
             None \<Rightarrow> Inl (KeyError curnode)
           | Some (qcost, h) \<Rightarrow> Inr (qcost < dst)))"

partial_function (option) astar_loop ::
  "graph \<Rightarrow> (string \<Rightarrow> real) \<Rightarrow> string \<Rightarrow> string \<Rightarrow> astar_entry list
     \<Rightarrow> (string \<rightharpoonup> real \<times> real) \<Rightarrow> links \<Rightarrow> nat \<Rightarrow> (exn + string list) option" where
  "astar_loop g h target msg queue enqueued explored c =
     (if queue = [] then Some (Inl (NetworkXNoPath msg))
      else case heappop astar_key queue of
        ((p, k, curnode, dst, parent), rest) \<Rightarrow>
          if curnode = target
          then (case chase explored parent [curnode] of
                  None \<Rightarrow> None
                | Some (Inl e) \<Rightarrow> Some (Inl e)
                | Some (Inr path) \<Rightarrow> Some (Inr (rev path)))
          else (case astar_skip explored enqueued curnode dst of
                  Inl e \<Rightarrow> Some (Inl e)
                | Inr skip \<Rightarrow>
                    if skip then astar_loop g h target msg rest enqueued explored c
                    else (case adj g curnode of
                            None \<Rightarrow> Some (Inl (KeyError curnode))
                          | Some nb \<Rightarrow>
                              (case astar_relax h curnode dst nb (enqueued, rest, c) of
                                 (enqueued', queue', c') \<Rightarrow>
                                   astar_loop g h target msg queue' enqueued'
                                     (explored(curnode \<mapsto> parent)) c'))))"

declare astar_loop.simps [code]

definition astar_path ::
  "graph \<Rightarrow> (string \<Rightarrow> string \<Rightarrow> real) \<Rightarrow> string \<Rightarrow> string \<Rightarrow> (exn + string list) option" where
  "astar_path g heuristic source target =
     (if \<not> has_node g source \<or> \<not> has_node g target
      then Some (Inl (NodeNotFound (''Either source '' @ source @ '' or target '' @ target @ '' is not in G'')))
      else astar_loop g (\<lambda>n. heuristic n target) target
             (''Node '' @ target @ '' not reachable from '' @ source)
             [(0, 0, source, 0, None)] Map.empty Map.empty 1)"

text \<open>\<^verbatim>\<open>sum(weight(u, v, G[u][v]) for u, v in zip(path[:-1], path[1:]))\<close>\<close>

fun path_weight :: "graph \<Rightarrow> string list \<Rightarrow> exn + real" where
  "path_weight g (u # v # rest) =
     (case adj g u of
        None \<Rightarrow> Inl (KeyError u)
      | Some nb \<Rightarrow>
          (case map_of nb v of
             None \<Rightarrow> Inl (KeyError v)
           | Some d \<Rightarrow>
               (case path_weight g (v # rest) of
                  Inl e \<Rightarrow> Inl e
                | Inr s \<Rightarrow> Inr (wt d + s))))"
| "path_weight g path = Inr 0"

definition astar_path_length ::
  "graph \<Rightarrow> (string \<Rightarrow> string \<Rightarrow> real) \<Rightarrow> string \<Rightarrow> string \<Rightarrow> (exn + real) option" where
  "astar_path_length g heuristic source target =
     (if \<not> has_node g source \<or> \<not> has_node g target
      then Some (Inl (NodeNotFound (''Either source '' @ source @ '' or target '' @ target @ '' is not in G'')))
      else case astar_path g heuristic source target of
             None \<Rightarrow> None
           | Some (Inl e) \<Rightarrow> Some (Inl e)
           | Some (Inr path) \<Rightarrow> Some (path_weight g path))"

subsection \<open>Simple paths: \<^verbatim>\<open>nx.all_simple_paths\<close>\<close>

text \<open>
  A depth-first search that never enters a node of the current path. \<open>cur\<close> is the
  current path and \<open>next_node\<close> the node at the end of the edge that is tried: when it
  is a target the path is reported, and the search goes on through it while the
  current path has fewer than \<open>cutoff\<close> nodes and some target is not on it yet.
\<close>

function simple_paths_from ::
  "graph \<Rightarrow> string list \<Rightarrow> nat \<Rightarrow> string list \<Rightarrow> string \<Rightarrow> string list list" where
  "simple_paths_from g targets cutoff cur next_node =
     (if next_node \<in> set targets then [cur @ [next_node]] else [])
     @ (if length cur < cutoff \<and> (\<exists>t \<in> set targets. t \<notin> set cur \<and> t \<noteq> next_node)
        then concat (map (simple_paths_from g targets cutoff (cur @ [next_node]))
                       (filter (\<lambda>w. w \<notin> set (cur @ [next_node])) (neighbors g next_node)))
        else [])"
  by pat_completeness auto
termination
  by (relation "measure (\<lambda>(g, targets, cutoff, cur, next_node). cutoff - length cur)") auto

declare simple_paths_from.simps [simp del]

text \<open>
  A target that is not a node is read as a collection of targets; for a string these
  are its characters.
\<close>

definition all_simple_paths :: "graph \<Rightarrow> string \<Rightarrow> string \<Rightarrow> nat \<Rightarrow> exn + string list list" where
  "all_simple_paths g source target cutoff =
     (if \<not> has_node g source
      then Inl (NodeNotFound (''source node '' @ source @ '' not in graph''))
      else let targets = (if has_node g target then [target] else map (\<lambda>ch. [ch]) target)
           in Inr (if targets \<noteq> [] then simple_paths_from g targets cutoff [] source else []))"

section \<open>PathFinder (backend/pathfinder.py)\<close>

text \<open>
  The result dictionary: \<^verbatim>\<open>success\<close>, \<^verbatim>\<open>path\<close>, \<^verbatim>\<open>distance\<close>, and \<^verbatim>\<open>error\<close> on a failure
  (\<open>None\<close> when the key is absent). The entries of \<^verbatim>\<open>find_all_paths\<close> have \<^verbatim>\<open>steps\<close> too.
\<close>

record path_result =
  pr_success :: bool
  pr_error :: "string option"
  pr_path :: "string list"
  pr_distance :: real

record path_entry = path_result +
  pr_steps :: int

definition failure :: "string \<Rightarrow> path_result" where
  "failure msg = \<lparr>pr_success = False, pr_error = Some msg, pr_path = [], pr_distance = 0\<rparr>"

definition found :: "string list \<Rightarrow> real \<Rightarrow> path_result" where
  "found p d = \<lparr>pr_success = True, pr_error = None, pr_path = p, pr_distance = d\<rparr>"

text \<open>The calls of \<^verbatim>\<open>nx.shortest_path\<close> and \<^verbatim>\<open>nx.shortest_path_length\<close> with a weight.\<close>

definition shortest_path_weighted :: "graph \<Rightarrow> string \<Rightarrow> string \<Rightarrow> exn + string list" where
  "shortest_path_weighted g source target =
     (case bidirectional_dijkstra g source target of Inl e \<Rightarrow> Inl e | Inr (d, p) \<Rightarrow> Inr p)"

definition shortest_path_length_weighted :: "graph \<Rightarrow> string \<Rightarrow> string \<Rightarrow> exn + real" where
  "shortest_path_length_weighted g source target =
     (if \<not> has_node g source then Inl (NodeNotFound (''Source '' @ source @ '' not in G''))
      else dijkstra_path_length g source target)"

definition find_path_dijkstra :: "graph \<Rightarrow> string \<Rightarrow> string \<Rightarrow> exn + path_result" where
  "find_path_dijkstra g start_room end_room =
     (case shortest_path_weighted g start_room end_room of
        Inl e \<Rightarrow> Inl e
      | Inr p \<Rightarrow>
          (case shortest_path_length_weighted g start_room end_room of
             Inl e \<Rightarrow> Inl e
           | Inr d \<Rightarrow> Inr (found p d)))"

text \<open>The straight-line heuristic of \<^verbatim>\<open>_find_path_astar\<close>.\<close>

definition node_attrs :: "graph \<Rightarrow> string \<Rightarrow> node_data option" where
  "node_attrs g n = map_option fst (map_of g n)"

definition center_or_origin :: "graph \<Rightarrow> string \<Rightarrow> point" where
  "center_or_origin g n =
     (case node_attrs g n of
        None \<Rightarrow> \<lparr>p_x = 0, p_y = 0\<rparr>
      | Some a \<Rightarrow> (case n_center a of None \<Rightarrow> \<lparr>p_x = 0, p_y = 0\<rparr> | Some c \<Rightarrow> c))"

definition heuristic :: "graph \<Rightarrow> string \<Rightarrow> string \<Rightarrow> real" where
  "heuristic g u v =
     (if \<not> has_node g u \<or> \<not> has_node g v then 0
      else let pos_u = center_or_origin g u; pos_v = center_or_origin g v;
               dx = p_x pos_u - p_x pos_v; dy = p_y pos_u - p_y pos_v
           in sqrt (dx * dx + dy * dy))"

definition find_path_astar :: "graph \<Rightarrow> string \<Rightarrow> string \<Rightarrow> (exn + path_result) option" where
  "find_path_astar g start_room end_room =
     (case astar_path g (heuristic g) start_room end_room of
        None \<Rightarrow> None
      | Some (Inl e) \<Rightarrow> Some (Inl e)
      | Some (Inr p) \<Rightarrow>
          (case astar_path_length g (heuristic g) start_room end_room of
             None \<Rightarrow> None
           | Some (Inl e) \<Rightarrow> Some (Inl e)
           | Some (Inr d) \<Rightarrow> Some (Inr (found p d))))"

definition find_path_bfs :: "graph \<Rightarrow> string \<Rightarrow> string \<Rightarrow> (exn + path_result) option" where
  "find_path_bfs g start_room end_room =
     (case bidirectional_shortest_path g start_room end_room of
        None \<Rightarrow> None
      | Some (Inl e) \<Rightarrow> Some (Inl e)
      | Some (Inr p) \<Rightarrow> Some (Inr (found p (real_of_int (int (length p) - 1)))))"

text \<open>
  \<^verbatim>\<open>find_path\<close>. The three tests before the \<^verbatim>\<open>try\<close>, the dispatch on the algorithm name,
  and the two handlers: \<^verbatim>\<open>NetworkXNoPath\<close>, and any other exception. The value is \<open>None\<close>
  when the search that was called does not return.
\<close>

definition dispatch :: "graph \<Rightarrow> string \<Rightarrow> string \<Rightarrow> string \<Rightarrow> (exn + path_result) option" where
  "dispatch g start_room end_room algorithm =
     (if algorithm = ''dijkstra'' then Some (find_path_dijkstra g start_room end_room)
      else if algorithm = ''astar'' then find_path_astar g start_room end_room
      else if algorithm = ''bfs'' then find_path_bfs g start_room end_room
      else Some (Inr (failure (''Unknown algorithm: '' @ algorithm))))"

definition handle :: "string \<Rightarrow> string \<Rightarrow> exn + path_result \<Rightarrow> path_result" where
  "handle start_room end_room r =
     (case r of
        Inr res \<Rightarrow> res
      | Inl (NetworkXNoPath m) \<Rightarrow>
          failure (''No path found between '' @ start_room @ '' and '' @ end_room)
      | Inl e \<Rightarrow> failure (''Pathfinding error: '' @ exn_str e))"

definition find_path :: "graph \<Rightarrow> string \<Rightarrow> string \<Rightarrow> string \<Rightarrow> path_result option" where
  "find_path g start_room end_room algorithm =
     (if \<not> has_node g start_room
      then Some (failure (''Starting room '' @ start_room @ '' not found''))
      else if \<not> has_node g end_room
      then Some (failure (''Destination room '' @ end_room @ '' not found''))
      else if start_room = end_room then Some (found [start_room] 0)
      else map_option (handle start_room end_room) (dispatch g start_room end_room algorithm))"

text \<open>\<^verbatim>\<open>_calculate_path_distance\<close>: the weights of the steps that are edges, 1 by default.\<close>

fun calculate_path_distance :: "graph \<Rightarrow> string list \<Rightarrow> real" where
  "calculate_path_distance g (u # v # rest) =
     (case edge_attrs g u v of None \<Rightarrow> 0 | Some d \<Rightarrow> wt d) + calculate_path_distance g (v # rest)"
| "calculate_path_distance g p = 0"

text \<open>The slice \<^verbatim>\<open>xs[:n]\<close>; a negative n counts from the end.\<close>

definition slice_to :: "int \<Rightarrow> 'a list \<Rightarrow> 'a list" where
  "slice_to n xs = (if 0 \<le> n then take (nat n) xs else take (length xs - nat (- n)) xs)"

definition path_entry_of :: "graph \<Rightarrow> string list \<Rightarrow> path_entry" where
  "path_entry_of g p =
     \<lparr>pr_success = True, pr_error = None, pr_path = p,
      pr_distance = calculate_path_distance g p, pr_steps = int (length p) - 1\<rparr>"

definition find_all_paths :: "graph \<Rightarrow> string \<Rightarrow> string \<Rightarrow> int \<Rightarrow> path_entry list" where
  "find_all_paths g start_room end_room max_paths =
     (if \<not> has_node g start_room \<or> \<not> has_node g end_room then []
      else case all_simple_paths g start_room end_room 10 of
             Inl e \<Rightarrow> []
           | Inr all_paths \<Rightarrow>
               map (path_entry_of g) (slice_to max_paths (sort_key length all_paths)))"

definition get_room_neighbors :: "graph \<Rightarrow> string \<Rightarrow> string list" where
  "get_room_neighbors g room = (if \<not> has_node g room then [] else neighbors g room)"

definition get_shortest_distance :: "graph \<Rightarrow> string \<Rightarrow> string \<Rightarrow> exn + real" where
  "get_shortest_distance g start_room end_room =
     (case shortest_path_length_weighted g start_room end_room of
        Inl (NetworkXNoPath m) \<Rightarrow> Inr (- 1)
      | Inl e \<Rightarrow> Inl e
      | Inr d \<Rightarrow> Inr d)"

definition is_connected :: "graph \<Rightarrow> string \<Rightarrow> string \<Rightarrow> bool" where
  "is_connected g room1 room2 = has_edge g room1 room2"

section \<open>JohnsonPathfinder (backend/src/johnson\_pathfinder.py)\<close>

subsection \<open>Bellman-Ford: \<^verbatim>\<open>nx.single_source_bellman_ford_path_length\<close>\<close>

text \<open>
  The library routine returns the dictionary of the shortest distances from the source
  to the nodes it reaches, and raises \<^verbatim>\<open>NetworkXUnbounded\<close> when a cycle of negative
  weight can be reached; in an undirected graph an edge counts in both directions.
  Only the dictionary is used by the caller, so the routine is modelled by the
  Bellman-Ford algorithm in its textbook form, which computes the same dictionary:
  every arc is relaxed in |V| - 1 rounds, and an arc that can still be relaxed
  afterwards shows a negative cycle.
\<close>

text \<open>The arcs of a graph: every neighbour entry, with the weight the searches read.\<close>

definition arcs :: "graph \<Rightarrow> (string \<times> string \<times> real) list" where
  "arcs g = concat (map (\<lambda>(u, a, nb). map (\<lambda>(v, d). (u, v, wt d)) nb) g)"

definition can_relax :: "(string \<rightharpoonup> real) \<Rightarrow> string \<times> string \<times> real \<Rightarrow> bool" where
  "can_relax h = (\<lambda>(u, v, c).
     case h u of
       None \<Rightarrow> False
     | Some du \<Rightarrow> (case h v of None \<Rightarrow> True | Some dv \<Rightarrow> du + c < dv))"

definition relax :: "string \<times> string \<times> real \<Rightarrow> (string \<rightharpoonup> real) \<Rightarrow> (string \<rightharpoonup> real)" where
  "relax = (\<lambda>(u, v, c) h. if can_relax h (u, v, c) then h(v \<mapsto> the (h u) + c) else h)"

definition bellman_ford_rounds :: "graph \<Rightarrow> string \<Rightarrow> (string \<rightharpoonup> real)" where
  "bellman_ford_rounds g source = ((fold relax (arcs g)) ^^ (length g - 1)) [source \<mapsto> 0]"

definition single_source_bellman_ford_path_length ::
  "graph \<Rightarrow> string \<Rightarrow> exn + (string \<rightharpoonup> real)" where
  "single_source_bellman_ford_path_length g source =
     (if \<not> has_node g source then Inl (NodeNotFound (''Source '' @ source @ '' not in G''))
      else let h = bellman_ford_rounds g source
           in if list_ex (can_relax h) (arcs g)
              then Inl (NetworkXUnbounded ''Negative cycle detected.'')
              else Inr h)"

subsection \<open>The reweighting and the query\<close>

text \<open>
  The method works on \<^verbatim>\<open>self.graph\<close>, the graph object its caller passed in, so every
  function returns the graph as the call leaves it together with its outcome.
\<close>

definition zero_weight :: "edge_data \<Rightarrow> edge_data" where
  "zero_weight d = d\<lparr>weight := Some 0\<rparr>"

text \<open>Steps 1 and 2: the node \<^verbatim>\<open>'source'\<close> and its edges of weight 0 to every other node.\<close>

definition connect_source :: "graph \<Rightarrow> graph" where
  "connect_source g =
     fold (\<lambda>node g. if node \<noteq> ''source'' then add_edge g ''source'' node zero_weight else g)
          (nodes_of g) g"

text \<open>
  Step 4, \<^verbatim>\<open>data['weight'] += h[u] - h[v]\<close> for every edge: a KeyError when the edge has
  no weight or an endpoint has no distance. The attribute dictionary is shared by both
  directions of the edge.
\<close>

fun reweight_edges ::
  "(string \<rightharpoonup> real) \<Rightarrow> (string \<times> string \<times> edge_data) list \<Rightarrow> graph \<Rightarrow> graph \<times> exn option" where
  "reweight_edges h [] g = (g, None)"
| "reweight_edges h ((u, v, d) # es) g =
     (case weight d of
        None \<Rightarrow> (g, Some (KeyError ''weight''))
      | Some w \<Rightarrow>
          (case h u of
             None \<Rightarrow> (g, Some (KeyError u))
           | Some hu \<Rightarrow>
               (case h v of
                  None \<Rightarrow> (g, Some (KeyError v))
                | Some hv \<Rightarrow>
                    reweight_edges h es
                      (set_adj (set_adj g u v (d\<lparr>weight := Some (w + (hu - hv))\<rparr>))
                         v u (d\<lparr>weight := Some (w + (hu - hv))\<rparr>)))))"

text \<open>Steps 1 to 5 of \<^verbatim>\<open>find_shortest_path\<close>.\<close>

definition reweight :: "graph \<Rightarrow> graph \<times> exn option" where
  "reweight g =
     (let g1 = connect_source (add_node g ''source'' id) in
      case single_source_bellman_ford_path_length g1 ''source'' of
        Inl (NetworkXUnbounded m) \<Rightarrow> (g1, Some (ValueError ''Graph contains a negative-weight cycle''))
      | Inl e \<Rightarrow> (g1, Some e)
      | Inr h \<Rightarrow>
          (case reweight_edges h (edges g1) g1 of
             (g2, Some e) \<Rightarrow> (g2, Some e)
           | (g2, None) \<Rightarrow>
               (case remove_node g2 ''source'' of
                  Inl e \<Rightarrow> (g2, Some e)
                | Inr g3 \<Rightarrow> (g3, None))))"

text \<open>Step 6: the query on the reweighted graph; only \<^verbatim>\<open>NetworkXNoPath\<close> is handled.\<close>

definition query :: "graph \<Rightarrow> string \<Rightarrow> string \<Rightarrow> exn + path_result" where
  "query g start_room end_room =
     (case find_path_dijkstra g start_room end_room of
        Inl (NetworkXNoPath m) \<Rightarrow>
          Inr (failure (''No path found between '' @ start_room @ '' and '' @ end_room))
      | Inl e \<Rightarrow> Inl e
      | Inr r \<Rightarrow> Inr r)"

definition find_shortest_path :: "graph \<Rightarrow> string \<Rightarrow> string \<Rightarrow> graph \<times> (exn + path_result)" where
  "find_shortest_path g start_room end_room =
     (case reweight g of
        (g', Some e) \<Rightarrow> (g', Inl e)
      | (g', None) \<Rightarrow> (g', query g' start_room end_room))"

section \<open>Example inputs\<close>

definition door_xy :: door where
  "door_xy = \<lparr>door_id = ''d1'', door_position = \<lparr>p_x = 200, p_y = 100\<rparr>,
              door_connects = Some [''X'', ''Y'']\<rparr>"

definition floor_xy :: floor_data where
  "floor_xy = \<lparr>fd_floor_id = Some ''f'', fd_rooms = Some [], fd_doors = Some [door_xy]\<rparr>"

definition edge_xy :: edge_data where
  "edge_xy = \<lparr>e_type = Some ''door'', weight = Some 0, e_door_id = Some ''d1'',
              e_position = Some \<lparr>p_x = 200, p_y = 100\<rparr>\<rparr>"

text \<open>The sample floor of \<^verbatim>\<open>backend/graph_builder.py\<close> and the graph it builds.\<close>

definition room_101 :: room where
  "room_101 = \<lparr>room_id = ''101'', room_name = Some ''Room 101'',
               room_center = \<lparr>p_x = 100, p_y = 100\<rparr>,
               room_bounds = Some \<lparr>b_x = 50, b_y = 50, b_width = 100, b_height = 100\<rparr>\<rparr>"

definition room_102 :: room where
  "room_102 = \<lparr>room_id = ''102'', room_name = Some ''Room 102'',
               room_center = \<lparr>p_x = 300, p_y = 100\<rparr>,
               room_bounds = Some \<lparr>b_x = 250, b_y = 50, b_width = 100, b_height = 100\<rparr>\<rparr>"

definition door_d1 :: door where
  "door_d1 = \<lparr>door_id = ''d1'', door_position = \<lparr>p_x = 200, p_y = 100\<rparr>,
              door_connects = Some [''101'', ''102'']\<rparr>"

definition sample_data :: floor_data where
  "sample_data = \<lparr>fd_floor_id = Some ''test_floor'', fd_rooms = Some [room_101, room_102],
                  fd_doors = Some [door_d1]\<rparr>"

text \<open>A room with neither name nor bounds, as the validator admits it, and a floor with it.\<close>

definition room_bare :: room where
  "room_bare = \<lparr>room_id = ''103'', room_name = None,
                room_center = \<lparr>p_x = 100, p_y = 300\<rparr>, room_bounds = None\<rparr>"

definition bare_floor :: floor_data where
  "bare_floor = \<lparr>fd_floor_id = Some ''test_floor'', fd_rooms = Some [room_101, room_bare],
                 fd_doors = Some [door_d1]\<rparr>"

definition edge_d1 :: edge_data where
  "edge_d1 = \<lparr>e_type = Some ''door'', weight = Some 0, e_door_id = Some ''d1'',
              e_position = Some \<lparr>p_x = 200, p_y = 100\<rparr>\<rparr>"

definition sample_graph :: graph where
  "sample_graph =
     [(''101'', \<lparr>n_type = Some ''room'', n_name = Some ''Room 101'',
                 n_center = Some \<lparr>p_x = 100, p_y = 100\<rparr>,
                 n_bounds = Some \<lparr>b_x = 50, b_y = 50, b_width = 100, b_height = 100\<rparr>\<rparr>,
       [(''102'', edge_d1)]),
      (''102'', \<lparr>n_type = Some ''room'', n_name = Some ''Room 102'',
                 n_center = Some \<lparr>p_x = 300, p_y = 100\<rparr>,
                 n_bounds = Some \<lparr>b_x = 250, b_y = 50, b_width = 100, b_height = 100\<rparr>\<rparr>,
       [(''101'', edge_d1)])]"

text \<open>
  The test graph of \<^verbatim>\<open>backend/pathfinder.py\<close>, built by the same four calls of
  \<^verbatim>\<open>add_edge\<close>, and two small graphs for JohnsonPathfinder: one with an edge of negative
  weight, one with a node that is itself called \<^verbatim>\<open>'source'\<close>.
\<close>

definition weight_attr :: "real \<Rightarrow> edge_data \<Rightarrow> edge_data" where
  "weight_attr w d = d\<lparr>weight := Some w\<rparr>"

definition w_edge :: "real \<Rightarrow> edge_data" where
  "w_edge w = \<lparr>e_type = None, weight = Some w, e_door_id = None, e_position = None\<rparr>"

definition test_graph :: graph where
  "test_graph =
     add_edge (add_edge (add_edge (add_edge [] ''A'' ''B'' (weight_attr 1))
       ''B'' ''C'' (weight_attr 2)) ''C'' ''D'' (weight_attr 1)) ''A'' ''D'' (weight_attr 4)"

definition neg_graph :: graph where
  "neg_graph = add_edge [] ''A'' ''B'' (weight_attr (- 1))"

definition src_graph :: graph where
  "src_graph = add_edge [] ''source'' ''A'' (weight_attr 5)"

definition neg_graph_left :: graph where
  "neg_graph_left =
     [(''A'', empty_node, [(''B'', w_edge (- 1)), (''source'', w_edge 0)]),
      (''B'', empty_node, [(''A'', w_edge (- 1)), (''source'', w_edge 0)]),
      (''source'', empty_node, [(''A'', w_edge 0), (''B'', w_edge 0)])]"

text \<open>A path A - B - C whose first edge has a negative weight.\<close>

definition neg_path_graph :: graph where
  "neg_path_graph = add_edge (add_edge [] ''A'' ''B'' (weight_attr (- 1))) ''B'' ''C'' (weight_attr 1)"




section \<open>Predicates on graphs\<close>

text \<open>
  The entries of the neighbour dictionaries, and the invariants of a graph object that
  the theorems below speak about: every neighbour is a node, both directions of an edge
  carry the same attributes.
\<close>

definition nbr_entries :: "graph \<Rightarrow> (string \<times> string \<times> edge_data) set" where
  "nbr_entries g = {(n, v, d). \<exists>a nb. (n, a, nb) \<in> set g \<and> (v, d) \<in> set nb}"

definition closed_adj :: "graph \<Rightarrow> bool" where
  "closed_adj g = (\<forall>(n, v, d) \<in> nbr_entries g. has_node g v)"

definition door_edge :: "graph \<Rightarrow> string \<Rightarrow> string \<Rightarrow> bool" where
  "door_edge g a b =
     (\<exists>e. edge_attrs g a b = Some e \<and> e_type e = Some ''door'' \<and> weight e = Some 0)"

definition symmetric :: "graph \<Rightarrow> bool" where
  "symmetric g = (\<forall>a b. edge_attrs g a b = edge_attrs g b a)"

definition doors_zero :: "graph \<Rightarrow> bool" where
  "doors_zero g = (\<forall>a b e. edge_attrs g a b = Some e \<longrightarrow> e_type e = Some ''door'' \<longrightarrow> weight e = Some 0)"

text \<open>
  A walk follows edges from node to node; a simple path from s to t is a walk from s to
  t that visits no node twice.
\<close>

fun walk :: "graph \<Rightarrow> string list \<Rightarrow> bool" where
  "walk g [] = False"
| "walk g [v] = True"
| "walk g (u # v # rest) = (has_edge g u v \<and> walk g (v # rest))"

definition simple_path :: "graph \<Rightarrow> string \<Rightarrow> string \<Rightarrow> string list \<Rightarrow> bool" where
  "simple_path g s t p = (walk g p \<and> hd p = s \<and> last p = t \<and> distinct p)"

text \<open>
  The invariant of a graph object and the graphs every edge of which carries a weight.
  The other predicates describe the graph with the synthetic source and the distances
  that Bellman-Ford computes on it.
\<close>

definition wf_graph :: "graph \<Rightarrow> bool" where
  "wf_graph g = (distinct (map fst g) \<and> (\<forall>(n, a, nb) \<in> set g. distinct (map fst nb))
                 \<and> closed_adj g \<and> symmetric g)"


definition inner_distinct :: "graph \<Rightarrow> bool" where
  "inner_distinct g = (\<forall>(n, a, nb) \<in> set g. distinct (map fst nb))"

definition source_linked :: "graph \<Rightarrow> string \<Rightarrow> bool" where
  "source_linked g s =
     (has_node g s \<and> closed_adj g
      \<and> (\<forall>v. has_node g v \<longrightarrow> v \<noteq> s \<longrightarrow> (s, v, 0) \<in> set (arcs g) \<and> (v, s, 0) \<in> set (arcs g)))"



definition link_step :: "string \<Rightarrow> graph \<Rightarrow> graph" where
  "link_step node g = (if node \<noteq> ''source'' then add_edge g ''source'' node zero_weight else g)"

definition zero_linked :: "graph \<Rightarrow> string \<Rightarrow> bool" where
  "zero_linked g v =
     ((\<exists>d. edge_attrs g ''source'' v = Some d \<and> weight d = Some 0)
      \<and> (\<exists>d. edge_attrs g v ''source'' = Some d \<and> weight d = Some 0))"

definition with_source :: "graph \<Rightarrow> graph" where
  "with_source g = connect_source (add_node g ''source'' id)"

definition nonneg_weights :: "graph \<Rightarrow> bool" where
  "nonneg_weights g = (\<forall>u v d. edge_attrs g u v = Some d \<longrightarrow> 0 \<le> wt d)"

text \<open>A graph without the node n: the node and every neighbour entry that names it.\<close>

definition without_node :: "string \<Rightarrow> graph \<Rightarrow> graph" where
  "without_node n g = AList.delete n (map (\<lambda>(m, a, nb). (m, a, AList.delete n nb)) g)"

text \<open>
  Walks between two nodes, the weights of such walks and their lower bounds; then the
  invariant of the loop of Dijkstra's search from s (\<open>dst\<close> the settled distances, \<open>seen\<close>
  the tentative ones, \<open>fringe\<close> the heap) and what the finished search has established
  about the target t.
\<close>

definition walk_between :: "graph \<Rightarrow> string \<Rightarrow> string \<Rightarrow> string list \<Rightarrow> bool" where
  "walk_between g s t p = (walk g p \<and> hd p = s \<and> last p = t)"

definition walk_weight :: "graph \<Rightarrow> string \<Rightarrow> string \<Rightarrow> real \<Rightarrow> bool" where
  "walk_weight g s v d = (\<exists>p. walk_between g s v p \<and> calculate_path_distance g p = d)"

definition lower_bound :: "graph \<Rightarrow> string \<Rightarrow> string \<Rightarrow> real \<Rightarrow> bool" where
  "lower_bound g s v d = (\<forall>p. walk_between g s v p \<longrightarrow> d \<le> calculate_path_distance g p)"

definition dijkstra_inv ::
  "graph \<Rightarrow> string \<Rightarrow> (string \<rightharpoonup> real) \<Rightarrow> (string \<rightharpoonup> real) \<Rightarrow> heap_entry list \<Rightarrow> bool" where
  "dijkstra_inv g s dst seen fringe =
     ((\<forall>v d. dst v = Some d \<longrightarrow> walk_weight g s v d \<and> lower_bound g s v d)
      \<and> (\<forall>(d, k, v) \<in> set fringe. walk_weight g s v d \<and> has_node g v)
      \<and> (\<forall>u x. dst u = None \<longrightarrow> seen u = Some x \<longrightarrow> (\<exists>k. (x, k, u) \<in> set fringe))
      \<and> (\<forall>v dv u e. dst v = Some dv \<longrightarrow> edge_attrs g v u = Some e \<longrightarrow> dst u = None \<longrightarrow>
            (\<exists>d' k. (d', k, u) \<in> set fringe \<and> d' \<le> dv + wt e))
      \<and> (dst s = None \<longrightarrow> (\<exists>k. (0, k, s) \<in> set fringe)))"

definition dijkstra_post :: "graph \<Rightarrow> string \<Rightarrow> string \<Rightarrow> exn + (string \<rightharpoonup> real) \<Rightarrow> bool" where
  "dijkstra_post g s t r =
     (\<exists>lengths. r = Inr lengths \<and>
        (case lengths t of
           Some d \<Rightarrow> walk_weight g s t d \<and> lower_bound g s t d
         | None \<Rightarrow> \<not> (\<exists>p. walk_between g s t p)))"









section \<open>Properties of the graph object and of GraphBuilder\<close>

lemma nodes_of_map_entry: "nodes_of (AList.map_entry k f g) = nodes_of g"
  unfolding nodes_of_def by (induction g) auto

lemma nodes_of_set_adj: "nodes_of (set_adj g u v dd) = nodes_of g"
  by (simp add: set_adj_def nodes_of_map_entry)

lemma has_node_set_adj: "has_node (set_adj g u v dd) n = has_node g n"
  by (simp add: has_node_def nodes_of_set_adj)

lemma nodes_of_append [simp]: "nodes_of (g @ h) = nodes_of g @ nodes_of h"
  by (simp add: nodes_of_def)

lemma nodes_of_single [simp]: "nodes_of [(n, x)] = [n]"
  by (simp add: nodes_of_def)

lemma nodes_of_add_edge:
  "set (nodes_of (add_edge g u v upd)) = insert u (insert v (set (nodes_of g)))"
  by (auto simp: add_edge_def Let_def nodes_of_set_adj has_node_def)

lemma has_node_add_edge:
  "has_node (add_edge g u v upd) n \<longleftrightarrow> n = u \<or> n = v \<or> has_node g n"
  using nodes_of_add_edge[of g u v upd] by (auto simp: has_node_def)

lemma nodes_of_add_node:
  "set (nodes_of (add_node g n upd)) = insert n (set (nodes_of g))"
  by (auto simp: add_node_def nodes_of_map_entry has_node_def)

lemma has_node_add_node:
  "has_node (add_node g n upd) m \<longleftrightarrow> m = n \<or> has_node g m"
  using nodes_of_add_node[of g n upd] by (auto simp: has_node_def)

lemma set_update_subset: "set (AList.update k v al) \<subseteq> insert (k, v) (set al)"
  by (induction al) auto

lemma set_map_entry_subset:
  "set (AList.map_entry k f al) \<subseteq> set al \<union> {(k, f x) | x. (k, x) \<in> set al}"
  by (induction al) auto

lemma nbr_entries_set_adj:
  "nbr_entries (set_adj g u v dd) \<subseteq> insert (u, v, dd) (nbr_entries g)"
proof
  fix x assume "x \<in> nbr_entries (set_adj g u v dd)"
  then obtain n w d a nb where x: "x = (n, w, d)"
    and m: "(n, a, nb) \<in> set (set_adj g u v dd)" and w: "(w, d) \<in> set nb"
    by (auto simp: nbr_entries_def)
  from m set_map_entry_subset[of u "\<lambda>(a, nb). (a, AList.update v dd nb)" g]
  consider "(n, a, nb) \<in> set g"
    | a' nb' where "n = u" "(u, a', nb') \<in> set g" "a = a'" "nb = AList.update v dd nb'"
    unfolding set_adj_def by auto
  then show "x \<in> insert (u, v, dd) (nbr_entries g)"
  proof cases
    case 1
    then show ?thesis using x w by (auto simp: nbr_entries_def)
  next
    case 2
    then show ?thesis using x w set_update_subset[of v dd nb'] by (auto simp: nbr_entries_def)
  qed
qed

lemma nbr_entries_append_empty [simp]: "nbr_entries (g @ [(n, a, [])]) = nbr_entries g"
  by (auto simp: nbr_entries_def)

lemma nbr_entries_add_edge:
  assumes "x \<in> nbr_entries (add_edge g u v upd)"
  shows "x \<in> nbr_entries g \<or> (\<exists>d0. x = (u, v, upd d0) \<or> x = (v, u, upd d0))"
proof -
  define g1 where "g1 = (if has_node g u then g else g @ [(u, empty_node, [])])"
  define g2 where "g2 = (if has_node g1 v then g1 else g1 @ [(v, empty_node, [])])"
  define dd where "dd = upd (case edge_attrs g2 u v of None \<Rightarrow> empty_edge | Some d \<Rightarrow> d)"
  have e: "add_edge g u v upd = set_adj (set_adj g2 u v dd) v u dd"
    by (simp add: add_edge_def Let_def g1_def g2_def dd_def)
  have "nbr_entries g2 = nbr_entries g" by (simp add: g1_def g2_def)
  with assms e nbr_entries_set_adj[of "set_adj g2 u v dd" v u dd] nbr_entries_set_adj[of g2 u v dd]
  have "x = (v, u, dd) \<or> x = (u, v, dd) \<or> x \<in> nbr_entries g" by auto
  then show ?thesis unfolding dd_def by blast
qed

lemma nbr_entries_add_node: "nbr_entries (add_node g n upd) \<subseteq> nbr_entries g"
proof -
  have "nbr_entries (AList.map_entry n (\<lambda>(a, nb). (upd a, nb)) g) \<subseteq> nbr_entries g"
    using set_map_entry_subset[of n "\<lambda>(a, nb). (upd a, nb)" g]
    by (fastforce simp: nbr_entries_def)
  then show ?thesis by (auto simp: add_node_def)
qed


lemma adj_append_new:
  "\<not> has_node g n \<Longrightarrow> adj (g @ [(n, a, nb)]) m = (if m = n then Some nb else adj g m)"
proof -
  assume "\<not> has_node g n"
  then have "map_of g n = None"
    by (simp add: has_node_def nodes_of_def map_of_eq_None_iff)
  then show ?thesis
    by (auto simp: adj_def map_add_def split: option.splits)
qed

lemma adj_None_iff: "adj g n = None \<longleftrightarrow> \<not> has_node g n"
  by (auto simp: adj_def has_node_def nodes_of_def map_of_eq_None_iff)

lemma edge_attrs_append_new:
  "\<not> has_node g n \<Longrightarrow> edge_attrs (g @ [(n, a, [])]) u v = edge_attrs g u v"
  using adj_None_iff[of g n] by (auto simp: edge_attrs_def adj_append_new)

lemma adj_set_adj:
  "adj (set_adj g u v dd) n =
     (if n = u then map_option (AList.update v dd) (adj g u) else adj g n)"
  by (auto simp: adj_def set_adj_def map_of_map_entry split: option.splits)

lemma edge_attrs_set_adj:
  "edge_attrs (set_adj g u v dd) a b =
     (if a = u \<and> b = v \<and> has_node g u then Some dd else edge_attrs g a b)"
  using adj_None_iff[of g u]
  by (auto simp: edge_attrs_def adj_set_adj update_conv' split: option.splits)

lemma edge_attrs_add_edge:
  "edge_attrs (add_edge g u v upd) a b =
     (if (a = u \<and> b = v) \<or> (a = v \<and> b = u)
      then Some (upd (case edge_attrs g u v of None \<Rightarrow> empty_edge | Some d \<Rightarrow> d))
      else edge_attrs g a b)"
proof -
  define g1 where "g1 = (if has_node g u then g else g @ [(u, empty_node, [])])"
  define g2 where "g2 = (if has_node g1 v then g1 else g1 @ [(v, empty_node, [])])"
  define dd where "dd = upd (case edge_attrs g2 u v of None \<Rightarrow> empty_edge | Some d \<Rightarrow> d)"
  have e: "add_edge g u v upd = set_adj (set_adj g2 u v dd) v u dd"
    by (simp add: add_edge_def Let_def g1_def g2_def dd_def)
  have ea: "edge_attrs g2 x y = edge_attrs g x y" for x y
    by (simp add: g1_def g2_def edge_attrs_append_new)
  have hn: "has_node g2 u" "has_node g2 v"
    by (auto simp: g1_def g2_def has_node_def)
  have dd: "dd = upd (case edge_attrs g u v of None \<Rightarrow> empty_edge | Some d \<Rightarrow> d)"
    by (simp add: dd_def ea)
  have "edge_attrs (set_adj (set_adj g2 u v dd) v u dd) a b =
     (if (a = u \<and> b = v) \<or> (a = v \<and> b = u) then Some dd else edge_attrs g a b)"
    apply (subst edge_attrs_set_adj)
    apply (subst edge_attrs_set_adj)
    apply (simp only: has_node_set_adj hn ea)
    apply (cases "a = u"; cases "b = v"; cases "a = v"; cases "b = u"; simp only: simp_thms if_True if_False)
    done
  then show ?thesis by (simp only: e dd)
qed

lemma edge_attrs_nbr_entries: "edge_attrs g u v = Some d \<Longrightarrow> (u, v, d) \<in> nbr_entries g"
proof -
  assume "edge_attrs g u v = Some d"
  then obtain a nb where "map_of g u = Some (a, nb)" "map_of nb v = Some d"
    by (auto simp: edge_attrs_def adj_def split: option.splits)
  then have "(u, a, nb) \<in> set g" "(v, d) \<in> set nb"
    by (auto dest: map_of_SomeD)
  then show ?thesis unfolding nbr_entries_def by blast
qed

lemma has_edge_has_node: "has_edge g u v \<Longrightarrow> has_node g u"
  using adj_None_iff[of g u] by (auto simp: has_edge_def edge_attrs_def split: option.splits)


lemma closed_adj_add_node: "closed_adj g \<Longrightarrow> closed_adj (add_node g n upd)"
  unfolding closed_adj_def using nbr_entries_add_node[of g n upd]
  by (fastforce simp: has_node_add_node)

lemma closed_adj_add_edge: "closed_adj g \<Longrightarrow> closed_adj (add_edge g u v upd)"
  unfolding closed_adj_def
  by (auto simp: has_node_add_edge dest!: nbr_entries_add_edge)

lemma add_rooms_preserves:
  assumes "\<And>n upd g. P g \<Longrightarrow> P (add_node g n upd)"
  shows "P g \<Longrightarrow> add_rooms rs g = Inr g' \<Longrightarrow> P g'"
proof (induction rs arbitrary: g)
  case Nil
  then show ?case by simp
next
  case (Cons r rs)
  from Cons.prems(2) obtain g1 where g1: "add_room r g = Inr g1" "add_rooms rs g1 = Inr g'"
    by (auto split: sum.splits)
  from g1(1) obtain upd where "g1 = add_node g (room_id r) upd"
    by (auto simp: add_room_def split: option.splits)
  with Cons.prems(1) have "P g1" by (simp add: assms)
  from Cons.IH[OF this g1(2)] show ?case .
qed

lemma add_room_nodes_preserves:
  assumes "P g" and "\<And>n upd g. P g \<Longrightarrow> P (add_node g n upd)"
    and "add_room_nodes fd g = Inr g'"
  shows "P g'"
proof (cases "fd_rooms fd")
  case None
  with assms(1,3) show ?thesis by (simp add: add_room_nodes_def)
next
  case (Some rs)
  with assms(3) have "add_rooms rs g = Inr g'" by (simp add: add_room_nodes_def)
  from add_rooms_preserves[of P, OF assms(2) assms(1) this] show ?thesis .
qed

lemma build_graph_InrD:
  assumes "build_graph fd = Inr g"
  obtains g1 where "add_room_nodes fd [] = Inr g1"
    "g = add_corridor_connections fd (add_door_connections fd g1)"
  using assms by (auto simp: build_graph_def split: if_splits sum.splits)

lemma closed_adj_add_room_nodes:
  "closed_adj g \<Longrightarrow> add_room_nodes fd g = Inr g' \<Longrightarrow> closed_adj g'"
  by (rule add_room_nodes_preserves[of closed_adj]) (simp_all add: closed_adj_add_node)

lemma closed_adj_add_door: "closed_adj g \<Longrightarrow> closed_adj (add_door d g)"
  by (auto simp: add_door_def closed_adj_add_edge split: option.splits list.splits)

lemma closed_adj_add_door_connections:
  "closed_adj g \<Longrightarrow> closed_adj (add_door_connections fd g)"
proof -
  have "closed_adj g \<Longrightarrow> closed_adj (fold add_door ds g)" for ds
    by (induction ds arbitrary: g) (auto simp: closed_adj_add_door)
  then show "closed_adj g \<Longrightarrow> closed_adj (add_door_connections fd g)"
    by (auto simp: add_door_connections_def split: option.splits)
qed

lemma closed_adj_add_corridor: "closed_adj g \<Longrightarrow> closed_adj (add_corridor r1 r2 g)"
  by (auto simp: add_corridor_def Let_def closed_adj_add_edge)

lemma closed_adj_corridor_loop: "closed_adj g \<Longrightarrow> closed_adj (corridor_loop rs g)"
proof (induction rs arbitrary: g)
  case Nil
  then show ?case by simp
next
  case (Cons r rs)
  have "closed_adj h \<Longrightarrow> closed_adj (fold (add_corridor r) xs h)" for xs h
    by (induction xs arbitrary: h) (auto simp: closed_adj_add_corridor)
  with Cons show ?case by simp
qed

lemma closed_adj_build_graph: "build_graph fd = Inr g \<Longrightarrow> closed_adj g"
proof -
  assume "build_graph fd = Inr g"
  then obtain g1 where g1: "add_room_nodes fd [] = Inr g1"
    "g = add_corridor_connections fd (add_door_connections fd g1)"
    by (rule build_graph_InrD)
  have "closed_adj []" by (simp add: closed_adj_def nbr_entries_def)
  from closed_adj_add_room_nodes[OF this g1(1)]
  have "closed_adj (add_corridor_connections fd (add_door_connections fd g1))"
    by (auto simp: add_corridor_connections_def closed_adj_corridor_loop
        closed_adj_add_door_connections split: option.splits)
  with g1(2) show "closed_adj g" by simp
qed

text \<open>
  Claim C6, as the code has it. \<^verbatim>\<open>add_edge\<close> never fails: an endpoint that is not a node
  yet is added as a node (without attributes), and the edge is stored under both
  directions. So in every graph built by \<^verbatim>\<open>build_graph\<close> the endpoints of every edge are
  nodes of the graph, also for a door that names a room id not among the rooms.
\<close>

theorem edge_endpoints_are_nodes:
  "has_node (add_edge g0 u v upd) u \<and> has_node (add_edge g0 u v upd) v
   \<and> has_edge (add_edge g0 u v upd) u v \<and> has_edge (add_edge g0 u v upd) v u
   \<and> (build_graph fd = Inr g \<longrightarrow> has_edge g a b \<longrightarrow> has_node g a \<and> has_node g b)"
proof -
  have "has_node g b" if "build_graph fd = Inr g" "has_edge g a b"
  proof -
    from that(2) obtain d where "edge_attrs g a b = Some d" by (auto simp: has_edge_def)
    then have "(a, b, d) \<in> nbr_entries g" by (rule edge_attrs_nbr_entries)
    with closed_adj_build_graph[OF that(1)] show ?thesis by (auto simp: closed_adj_def)
  qed
  moreover have "has_node g a" if "has_edge g a b"
    using that by (rule has_edge_has_node)
  ultimately show ?thesis
    by (simp add: has_node_add_edge has_edge_def edge_attrs_add_edge)
qed


lemma build_floor_xy:
  "build_graph floor_xy =
     Inr [(''X'', empty_node, [(''Y'', edge_xy)]), (''Y'', empty_node, [(''X'', edge_xy)])]"
  by (simp add: build_graph_def no_floor_data_def floor_xy_def add_room_nodes_def
      add_door_connections_def add_corridor_connections_def add_door_def door_xy_def
      add_edge_def has_node_def nodes_of_def edge_attrs_def adj_def set_adj_def
      door_attrs_def calculate_distance_def empty_edge_def edge_xy_def)

text \<open>
  The claim as stated fails: a door that connects the unknown rooms X and Y, on a floor
  with no room at all, builds a graph in which X and Y are nodes.
\<close>

theorem unknown_room_counterexample:
  "build_graph floor_xy =
     Inr [(''X'', empty_node, [(''Y'', edge_xy)]), (''Y'', empty_node, [(''X'', edge_xy)])]
   \<and> fd_rooms floor_xy = Some []
   \<and> has_node [(''X'', empty_node, [(''Y'', edge_xy)]), (''Y'', empty_node, [(''X'', edge_xy)])] ''X''"
  by (simp add: build_floor_xy) (simp add: floor_xy_def has_node_def nodes_of_def)

theorem edge_endpoints_are_nodes_witness:
  "build_graph floor_xy =
     Inr [(''X'', empty_node, [(''Y'', edge_xy)]), (''Y'', empty_node, [(''X'', edge_xy)])]
   \<and> has_edge [(''X'', empty_node, [(''Y'', edge_xy)]), (''Y'', empty_node, [(''X'', edge_xy)])] ''X'' ''Y''
   \<and> has_node [(''X'', empty_node, [(''Y'', edge_xy)]), (''Y'', empty_node, [(''X'', edge_xy)])] ''X''
   \<and> has_node [(''X'', empty_node, [(''Y'', edge_xy)]), (''Y'', empty_node, [(''X'', edge_xy)])] ''Y''"
proof -
  have e: "has_edge [(''X'', empty_node, [(''Y'', edge_xy)]), (''Y'', empty_node, [(''X'', edge_xy)])] ''X'' ''Y''"
    by (simp add: has_edge_def edge_attrs_def adj_def)
  from edge_endpoints_are_nodes[of "[]" "''X''" "''Y''" id floor_xy
      "[(''X'', empty_node, [(''Y'', edge_xy)]), (''Y'', empty_node, [(''X'', edge_xy)])]" "''X''" "''Y''"]
    build_floor_xy e
  show ?thesis by blast
qed


lemma adj_add_node: "adj (add_node g n upd) m = (if m = n \<and> \<not> has_node g n then Some [] else adj g m)"
proof (cases "has_node g n")
  case True
  then show ?thesis
    by (auto simp: add_node_def adj_def map_of_map_entry split: option.splits)
next
  case False
  then show ?thesis by (simp add: add_node_def adj_append_new)
qed

lemma edge_attrs_add_node: "edge_attrs (add_node g n upd) a b = edge_attrs g a b"
  using adj_None_iff[of g n] by (auto simp: edge_attrs_def adj_add_node)

lemma calculate_distance_self [simp]: "calculate_distance p p = 0"
  by (simp add: calculate_distance_def)

lemma symmetric_add_edge: "symmetric g \<Longrightarrow> symmetric (add_edge g u v upd)"
proof -
  assume s: "symmetric g"
  have "edge_attrs (add_edge g u v upd) a b = edge_attrs (add_edge g u v upd) b a" for a b
    using s unfolding symmetric_def edge_attrs_add_edge
    by (cases "a = u"; cases "b = v"; cases "a = v"; cases "b = u"; simp)
  then show ?thesis by (simp add: symmetric_def)
qed

lemma symmetric_add_node: "symmetric g \<Longrightarrow> symmetric (add_node g n upd)"
  by (simp add: symmetric_def edge_attrs_add_node)

lemma symmetric_add_door: "symmetric g \<Longrightarrow> symmetric (add_door d g)"
  by (auto simp: add_door_def symmetric_add_edge split: option.splits list.splits)

lemma symmetric_add_corridor: "symmetric g \<Longrightarrow> symmetric (add_corridor r1 r2 g)"
  by (auto simp: add_corridor_def Let_def symmetric_add_edge)

lemma doors_zero_add_door: "doors_zero g \<Longrightarrow> doors_zero (add_door d g)"
  by (auto simp: add_door_def doors_zero_def edge_attrs_add_edge door_attrs_def
      split: option.splits list.splits if_splits)

lemma doors_zero_add_corridor: "doors_zero g \<Longrightarrow> doors_zero (add_corridor r1 r2 g)"
  by (auto simp: add_corridor_def Let_def doors_zero_def edge_attrs_add_edge corridor_attrs_def
      split: if_splits)

lemma door_edge_add_door_new:
  "door_connects d = Some [r1, r2] \<Longrightarrow> door_edge (add_door d g) r1 r2"
  by (simp add: add_door_def door_edge_def edge_attrs_add_edge door_attrs_def)

lemma door_edge_add_door: "door_edge g a b \<Longrightarrow> door_edge (add_door d g) a b"
  by (auto simp: add_door_def door_edge_def edge_attrs_add_edge door_attrs_def
      split: option.splits list.splits)

lemma door_edge_add_corridor:
  "symmetric g \<Longrightarrow> door_edge g a b \<Longrightarrow> door_edge (add_corridor r1 r2 g) a b"
  unfolding add_corridor_def Let_def door_edge_def has_edge_def symmetric_def
  by (auto simp: edge_attrs_add_edge)


lemma fold_preserves:
  assumes "P s" and "\<And>x s. P s \<Longrightarrow> P (f x s)"
  shows "P (fold f xs s)"
  using assms(1) by (induction xs arbitrary: s) (auto intro: assms(2))

lemma corridor_loop_preserves:
  assumes "P g" and "\<And>r1 r2 g. P g \<Longrightarrow> P (add_corridor r1 r2 g)"
  shows "P (corridor_loop rs g)"
  using assms(1)
proof (induction rs arbitrary: g)
  case Nil
  then show ?case by simp
next
  case (Cons r rs)
  have "P (fold (add_corridor r) rs g)"
    using Cons.prems by (rule fold_preserves) (rule assms(2))
  then show ?case by (simp add: Cons.IH)
qed

lemma add_corridor_connections_preserves:
  assumes "P g" and "\<And>r1 r2 g. P g \<Longrightarrow> P (add_corridor r1 r2 g)"
  shows "P (add_corridor_connections fd g)"
  using corridor_loop_preserves[of P g, OF assms]
  by (simp add: add_corridor_connections_def assms(1) split: option.splits)

lemma add_door_connections_preserves:
  assumes "P g" and "\<And>d g. P g \<Longrightarrow> P (add_door d g)"
  shows "P (add_door_connections fd g)"
  using fold_preserves[of P g add_door, OF assms]
  by (simp add: add_door_connections_def assms(1) split: option.splits)

lemma edge_attrs_Nil [simp]: "edge_attrs [] a b = None"
  by (simp add: edge_attrs_def adj_def)

lemma symmetric_after_doors:
  assumes "add_room_nodes fd [] = Inr g1"
  shows "symmetric (add_door_connections fd g1)"
proof -
  have "symmetric g1"
    by (rule add_room_nodes_preserves[of symmetric, OF _ _ assms])
       (simp_all add: symmetric_def edge_attrs_add_node)
  then show ?thesis
    by (rule add_door_connections_preserves) (rule symmetric_add_door)
qed

lemma doors_zero_build_graph: "build_graph fd = Inr g \<Longrightarrow> doors_zero g"
proof -
  assume "build_graph fd = Inr g"
  then obtain g1 where g1: "add_room_nodes fd [] = Inr g1"
    "g = add_corridor_connections fd (add_door_connections fd g1)"
    by (rule build_graph_InrD)
  have "doors_zero g1"
    by (rule add_room_nodes_preserves[of doors_zero, OF _ _ g1(1)])
       (simp_all add: doors_zero_def edge_attrs_add_node)
  then have "doors_zero (add_door_connections fd g1)"
    by (rule add_door_connections_preserves) (rule doors_zero_add_door)
  then have "doors_zero (add_corridor_connections fd (add_door_connections fd g1))"
    by (rule add_corridor_connections_preserves) (rule doors_zero_add_corridor)
  with g1(2) show "doors_zero g" by simp
qed

lemma door_edge_fold_add_door:
  "d \<in> set ds \<Longrightarrow> door_connects d = Some [r1, r2] \<Longrightarrow> door_edge (fold add_door ds g) r1 r2"
proof (induction ds arbitrary: g)
  case Nil
  then show ?case by simp
next
  case (Cons x ds)
  show ?case
  proof (cases "d \<in> set ds")
    case True
    with Cons show ?thesis by simp
  next
    case False
    with Cons.prems have "x = d" by simp
    then have "door_edge (add_door x g) r1 r2"
      using Cons.prems(2) by (simp add: door_edge_add_door_new)
    then have "door_edge (fold add_door ds (add_door x g)) r1 r2"
      by (rule fold_preserves) (rule door_edge_add_door)
    then show ?thesis by simp
  qed
qed

lemma door_edge_build_graph:
  assumes "build_graph fd = Inr g" "fd_doors fd = Some ds" "d \<in> set ds"
    "door_connects d = Some [r1, r2]"
  shows "door_edge g r1 r2"
proof -
  from assms(1) obtain g0 where g0: "add_room_nodes fd [] = Inr g0"
    "g = add_corridor_connections fd (add_door_connections fd g0)"
    by (rule build_graph_InrD)
  let ?g1 = "add_door_connections fd g0"
  have "door_edge ?g1 r1 r2"
    using assms by (simp add: add_door_connections_def door_edge_fold_add_door)
  with symmetric_after_doors[OF g0(1)]
  have "symmetric ?g1 \<and> door_edge ?g1 r1 r2" by simp
  then have "symmetric (add_corridor_connections fd ?g1) \<and> door_edge (add_corridor_connections fd ?g1) r1 r2"
    by (rule add_corridor_connections_preserves)
       (simp add: symmetric_add_corridor door_edge_add_corridor)
  with g0(2) show ?thesis by simp
qed

lemma add_rooms_raises:
  "add_rooms rs g = Inl err \<Longrightarrow>
   \<exists>r. r \<in> set rs \<and> ((room_name r = None \<and> err = KeyError ''name'')
                       \<or> (room_bounds r = None \<and> err = KeyError ''bounds''))"
proof (induction rs arbitrary: g)
  case Nil
  then show ?case by simp
next
  case (Cons r rs)
  show ?case
  proof (cases "add_room r g")
    case (Inl e)
    with Cons.prems have "e = err" by simp
    with Inl have "(room_name r = None \<and> err = KeyError ''name'')
                    \<or> (room_bounds r = None \<and> err = KeyError ''bounds'')"
      by (auto simp: add_room_def split: option.splits)
    then show ?thesis by auto
  next
    case (Inr g1)
    with Cons.prems have "add_rooms rs g1 = Inl err" by simp
    from Cons.IH[OF this] show ?thesis by auto
  qed
qed

lemma add_rooms_returns:
  "(\<And>r. r \<in> set rs \<Longrightarrow> room_name r \<noteq> None \<and> room_bounds r \<noteq> None) \<Longrightarrow>
   \<exists>g'. add_rooms rs g = Inr g'"
proof (induction rs arbitrary: g)
  case Nil
  then show ?case by simp
next
  case (Cons r rs)
  from Cons.prems[of r] obtain g1 where g1: "add_room r g = Inr g1"
    by (auto simp: add_room_def)
  from Cons.IH[of g1] Cons.prems obtain g' where "add_rooms rs g1 = Inr g'" by auto
  with g1 show ?case by simp
qed

lemma build_graph_raises:
  assumes "build_graph fd = Inl err"
  shows "(no_floor_data fd \<and> err = ValueError ''No floor data provided'')
       \<or> (\<exists>rs r. fd_rooms fd = Some rs \<and> r \<in> set rs
              \<and> ((room_name r = None \<and> err = KeyError ''name'')
                   \<or> (room_bounds r = None \<and> err = KeyError ''bounds'')))"
proof (cases "no_floor_data fd")
  case True
  with assms show ?thesis by (simp add: build_graph_def)
next
  case False
  with assms have r: "add_room_nodes fd [] = Inl err"
    by (auto simp: build_graph_def split: sum.splits)
  then obtain rs where rs: "fd_rooms fd = Some rs" "add_rooms rs [] = Inl err"
    by (auto simp: add_room_nodes_def split: option.splits)
  from add_rooms_raises[OF rs(2)] rs(1) show ?thesis by blast
qed

lemma build_graph_returns:
  assumes "\<not> no_floor_data fd"
    and "\<And>rs r. fd_rooms fd = Some rs \<Longrightarrow> r \<in> set rs \<Longrightarrow> room_name r \<noteq> None \<and> room_bounds r \<noteq> None"
  shows "\<exists>g. build_graph fd = Inr g"
proof -
  have "\<exists>g1. add_room_nodes fd [] = Inr g1"
  proof (cases "fd_rooms fd")
    case None
    then show ?thesis by (simp add: add_room_nodes_def)
  next
    case (Some rs)
    with add_rooms_returns[of rs "[]"] assms(2) show ?thesis by (simp add: add_room_nodes_def)
  qed
  with assms(1) show ?thesis by (auto simp: build_graph_def)
qed

text \<open>
  Claim C7. The weight of a door edge is the distance from the position of the door to
  itself, which is 0. In a built graph every edge of type door has weight 0 and every
  door of the floor with exactly two connected rooms has its door edge; a door whose
  \<^verbatim>\<open>connects\<close> is absent or does not have exactly two entries leaves the graph as it is.
  No door makes the build raise: an exception of \<^verbatim>\<open>build_graph\<close> is the ValueError for an
  empty floor description or the KeyError for a room without name or without bounds,
  which is raised before the first door is read; a floor description that is not empty
  and whose rooms all have both keys is built.
\<close>

theorem door_edges_have_weight_zero:
  "(build_graph fd = Inr g \<longrightarrow>
      (\<forall>a b e. edge_attrs g a b = Some e \<longrightarrow> e_type e = Some ''door'' \<longrightarrow> weight e = Some 0)
      \<and> (\<forall>ds d r1 r2. fd_doors fd = Some ds \<longrightarrow> d \<in> set ds \<longrightarrow> door_connects d = Some [r1, r2] \<longrightarrow>
            (\<exists>e. edge_attrs g r1 r2 = Some e \<and> e_type e = Some ''door'' \<and> weight e = Some 0)))
   \<and> (door_connects d = Some [r1, r2] \<longrightarrow>
        (\<exists>e. edge_attrs (add_door d g0) r1 r2 = Some e \<and> e_type e = Some ''door''
           \<and> weight e = Some (calculate_distance (door_position d) (door_position d))
           \<and> calculate_distance (door_position d) (door_position d) = 0))
   \<and> ((\<forall>r1 r2. door_connects d \<noteq> Some [r1, r2]) \<longrightarrow> add_door d g0 = g0)
   \<and> (build_graph fd = Inl err \<longrightarrow>
        (no_floor_data fd \<and> err = ValueError ''No floor data provided'')
        \<or> (\<exists>rs r. fd_rooms fd = Some rs \<and> r \<in> set rs
              \<and> ((room_name r = None \<and> err = KeyError ''name'')
                   \<or> (room_bounds r = None \<and> err = KeyError ''bounds''))))
   \<and> (\<not> no_floor_data fd \<longrightarrow>
        (\<forall>rs r. fd_rooms fd = Some rs \<longrightarrow> r \<in> set rs \<longrightarrow>
           room_name r \<noteq> None \<and> room_bounds r \<noteq> None) \<longrightarrow>
        (\<exists>g. build_graph fd = Inr g))"
proof -
  have 1: "weight e = Some 0"
    if "build_graph fd = Inr g" "edge_attrs g a b = Some e" "e_type e = Some ''door''" for a b e
    using doors_zero_build_graph[OF that(1)] that(2,3) unfolding doors_zero_def by blast
  have 2: "\<exists>e. edge_attrs g r1 r2 = Some e \<and> e_type e = Some ''door'' \<and> weight e = Some 0"
    if "build_graph fd = Inr g" "fd_doors fd = Some ds" "d \<in> set ds" "door_connects d = Some [r1, r2]"
    for ds d r1 r2
    using door_edge_build_graph[OF that] by (simp add: door_edge_def)
  have 3: "\<exists>e. edge_attrs (add_door d g0) r1 r2 = Some e \<and> e_type e = Some ''door''
           \<and> weight e = Some (calculate_distance (door_position d) (door_position d))
           \<and> calculate_distance (door_position d) (door_position d) = 0"
    if "door_connects d = Some [r1, r2]"
    using that by (simp add: add_door_def edge_attrs_add_edge door_attrs_def)
  have 4: "add_door d g0 = g0" if "\<forall>r1 r2. door_connects d \<noteq> Some [r1, r2]"
    using that by (auto simp: add_door_def split: option.splits list.splits)
  note 5 = build_graph_raises[of fd err]
  have 6: "\<exists>g. build_graph fd = Inr g"
    if "\<not> no_floor_data fd"
      "\<forall>rs r. fd_rooms fd = Some rs \<longrightarrow> r \<in> set rs \<longrightarrow> room_name r \<noteq> None \<and> room_bounds r \<noteq> None"
    using that by (intro build_graph_returns) blast+
  from 1 2 3 4 5 6 show ?thesis by blast
qed

lemma build_sample_data: "build_graph sample_data = Inr sample_graph"
  by (simp add: build_graph_def no_floor_data_def sample_data_def add_room_nodes_def
      add_room_def
      add_door_connections_def add_corridor_connections_def add_door_def door_d1_def
      room_101_def room_102_def add_node_def room_attrs_def empty_node_def
      add_edge_def has_node_def nodes_of_def edge_attrs_def adj_def set_adj_def
      door_attrs_def empty_edge_def edge_d1_def sample_graph_def
      add_corridor_def has_edge_def)

lemma build_bare_floor: "build_graph bare_floor = Inl (KeyError ''name'')"
  by (simp add: build_graph_def no_floor_data_def bare_floor_def add_room_nodes_def
      add_room_def room_101_def room_bare_def)

theorem door_edges_have_weight_zero_witness:
  "build_graph sample_data = Inr sample_graph
   \<and> edge_attrs sample_graph ''101'' ''102'' = Some edge_d1
   \<and> e_type edge_d1 = Some ''door'' \<and> weight edge_d1 = Some 0
   \<and> door_connects door_d1 = Some [''101'', ''102'']
   \<and> add_door (door_d1\<lparr>door_connects := Some [''101'']\<rparr>) sample_graph = sample_graph
   \<and> \<not> no_floor_data sample_data
   \<and> build_graph bare_floor = Inl (KeyError ''name'')
   \<and> fd_rooms bare_floor = Some [room_101, room_bare] \<and> room_name room_bare = None"
proof -
  have a: "edge_attrs sample_graph ''101'' ''102'' = Some edge_d1"
    by (simp add: sample_graph_def edge_attrs_def adj_def)
  have b: "e_type edge_d1 = Some ''door''" by (simp add: edge_d1_def)
  have c: "door_connects door_d1 = Some [''101'', ''102'']" by (simp add: door_d1_def)
  have d: "\<forall>r1 r2. door_connects (door_d1\<lparr>door_connects := Some [''101'']\<rparr>) \<noteq> Some [r1, r2]"
    by simp
  have e: "\<not> no_floor_data sample_data" by (simp add: no_floor_data_def sample_data_def)
  have f: "fd_rooms bare_floor = Some [room_101, room_bare]" "room_name room_bare = None"
    by (simp_all add: bare_floor_def room_bare_def)
  from door_edges_have_weight_zero[of sample_data sample_graph
      "door_d1\<lparr>door_connects := Some [''101'']\<rparr>" "''101''" "''102''" sample_graph]
    build_sample_data a b c d e build_bare_floor f
  show ?thesis by blast
qed

section \<open>Properties of PathFinder\<close>

lemma test_graph_eq:
  "test_graph =
     [(''A'', empty_node, [(''B'', w_edge 1), (''D'', w_edge 4)]),
      (''B'', empty_node, [(''A'', w_edge 1), (''C'', w_edge 2)]),
      (''C'', empty_node, [(''B'', w_edge 2), (''D'', w_edge 1)]),
      (''D'', empty_node, [(''C'', w_edge 1), (''A'', w_edge 4)])]"
  by (simp add: test_graph_def add_edge_def has_node_def nodes_of_def edge_attrs_def adj_def
      set_adj_def weight_attr_def empty_edge_def w_edge_def)

lemma shortest_path_test_graph:
  "bidirectional_dijkstra test_graph ''A'' ''D'' = Inr (4, [''A'', ''D''])"
  unfolding test_graph_eq
  by (simp add: bidirectional_dijkstra_def has_node_def nodes_of_def heappop_def entry_key_def
      adj_def wt_def w_edge_def sel_def put_def bidi_meet_def bidi_loop.simps)

lemma shortest_path_length_test_graph:
  "dijkstra_path_length test_graph ''A'' ''D'' = Inr 4"
  unfolding test_graph_eq
  by (simp add: dijkstra_path_length_def has_node_def nodes_of_def heappop_def entry_key_def
      adj_def wt_def w_edge_def dijkstra_loop.simps)

lemma has_node_test_graph: "has_node test_graph ''A''" "has_node test_graph ''D''"
  by (simp_all add: test_graph_eq has_node_def nodes_of_def)

lemma find_path_dijkstra_test_graph:
  "find_path test_graph ''A'' ''D'' ''dijkstra'' = Some (found [''A'', ''D''] 4)"
  by (simp add: find_path_def dispatch_def handle_def find_path_dijkstra_def
      shortest_path_weighted_def shortest_path_length_weighted_def has_node_test_graph
      shortest_path_test_graph shortest_path_length_test_graph)

text \<open>
  Claim C4, as the code has it. On the test graph (edges A-B 1, B-C 2, C-D 1, A-D 4)
  the query from A to D with Dijkstra succeeds with distance 4 and the path A, D: the
  direct edge is found first, and a path of equal length found later does not replace
  it (the searches relax on a strictly smaller distance only).
\<close>

theorem find_path_test_graph:
  "find_path test_graph ''A'' ''D'' ''dijkstra''
     = Some \<lparr>pr_success = True, pr_error = None, pr_path = [''A'', ''D''], pr_distance = 4\<rparr>"
  by (simp add: find_path_dijkstra_test_graph found_def)

text \<open>The claim as stated, with the path A, B, C, D, fails.\<close>

theorem find_path_test_graph_counterexample:
  "find_path test_graph ''A'' ''D'' ''dijkstra''
     \<noteq> Some \<lparr>pr_success = True, pr_error = None, pr_path = [''A'', ''B'', ''C'', ''D''],
              pr_distance = 4\<rparr>"
  by (simp add: find_path_dijkstra_test_graph found_def)

text \<open>
  Claim C5. For a node u of the graph the query from u to u succeeds with the path [u]
  and distance 0, whatever the algorithm name, and no search is run. (For an identifier
  that is not a node the first test of \<^verbatim>\<open>find_path\<close> answers ``not found''.)
\<close>

theorem find_path_same_node:
  "has_node g u \<Longrightarrow>
     find_path g u u algorithm
       = Some \<lparr>pr_success = True, pr_error = None, pr_path = [u], pr_distance = 0\<rparr>"
  by (simp add: find_path_def found_def)

theorem find_path_same_node_witness:
  "has_node test_graph ''A'' \<and>
   find_path test_graph ''A'' ''A'' ''bfs''
     = Some \<lparr>pr_success = True, pr_error = None, pr_path = [''A''], pr_distance = 0\<rparr>"
  using find_path_same_node[of test_graph "''A''" "''bfs''"] has_node_test_graph(1) by simp

lemma neighbors_has_edge: "w \<in> set (neighbors g v) \<longleftrightarrow> has_edge g v w"
proof (cases "adj g v")
  case None
  then show ?thesis by (simp add: neighbors_def has_edge_def edge_attrs_def)
next
  case (Some nb)
  have "map_of nb w \<noteq> None \<longleftrightarrow> w \<in> fst ` set nb"
    by (simp add: map_of_eq_None_iff)
  with Some show ?thesis by (simp add: neighbors_def has_edge_def edge_attrs_def)
qed

lemma simple_paths_from_sound:
  assumes "p \<in> set (simple_paths_from g T cutoff cur nxt)" "distinct (cur @ [nxt])"
  shows "\<exists>rest. p = cur @ nxt # rest \<and> distinct p \<and> last p \<in> set T \<and> walk g (nxt # rest)
           \<and> length rest \<le> cutoff - length cur"
  using assms
proof (induction g T cutoff cur nxt arbitrary: p rule: simple_paths_from.induct)
  case (1 g T cutoff cur nxt)
  from "1.prems"(1) consider
      (here) "nxt \<in> set T" "p = cur @ [nxt]"
    | (deeper) w where "length cur < cutoff" "\<exists>t \<in> set T. t \<notin> set cur \<and> t \<noteq> nxt"
        "w \<in> set (neighbors g nxt)" "w \<notin> set (cur @ [nxt])"
        "p \<in> set (simple_paths_from g T cutoff (cur @ [nxt]) w)"
    by (subst (asm) simple_paths_from.simps) (auto split: if_splits)
  then show ?case
  proof cases
    case here
    with "1.prems"(2) show ?thesis by auto
  next
    case deeper
    have d: "distinct ((cur @ [nxt]) @ [w])"
      using "1.prems"(2) deeper(4) by auto
    have c: "length cur < cutoff \<and> (\<exists>t \<in> set T. t \<notin> set cur \<and> t \<noteq> nxt)"
      using deeper(1,2) by simp
    have m: "w \<in> set (filter (\<lambda>w. w \<notin> set (cur @ [nxt])) (neighbors g nxt))"
      using deeper(3,4) by simp
    from "1.IH"[OF c m deeper(5) d]
    obtain rest where r: "p = (cur @ [nxt]) @ w # rest" "distinct p" "last p \<in> set T"
      "walk g (w # rest)" "length rest \<le> cutoff - length (cur @ [nxt])"
      by blast
    have "walk g (nxt # w # rest)"
      using r(4) deeper(3) by (simp add: neighbors_has_edge)
    moreover have "length (w # rest) \<le> cutoff - length cur"
      using r(5) deeper(1) by simp
    ultimately show ?thesis using r(1,2,3) by auto
  qed
qed

lemma all_simple_paths_sound:
  assumes "all_simple_paths g s t cutoff = Inr ps" "has_node g t" "p \<in> set ps"
  shows "simple_path g s t p \<and> length p \<le> cutoff + 1"
proof -
  from assms have "p \<in> set (simple_paths_from g [t] cutoff [] s)"
    by (auto simp: all_simple_paths_def Let_def split: if_splits)
  from simple_paths_from_sound[OF this]
  obtain rest where "p = s # rest" "distinct p" "last p = t" "walk g (s # rest)"
    "length rest \<le> cutoff"
    by auto
  then show ?thesis by (simp add: simple_path_def)
qed

lemma sorted_slice_to: "sorted (map f xs) \<Longrightarrow> sorted (map f (slice_to n xs))"
  by (simp add: slice_to_def take_map[symmetric] sorted_wrt_take)

lemma set_slice_to: "set (slice_to n xs) \<subseteq> set xs"
  by (auto simp: slice_to_def dest: in_set_takeD)

lemma find_all_paths_cases:
  obtains "find_all_paths g s t m = []"
  | ps where "has_node g s" "has_node g t" "all_simple_paths g s t 10 = Inr ps"
      "find_all_paths g s t m = map (path_entry_of g) (slice_to m (sort_key length ps))"
proof (cases "has_node g s \<and> has_node g t")
  case False
  then have "find_all_paths g s t m = []" by (auto simp: find_all_paths_def)
  then show ?thesis by (rule that(1))
next
  case True
  show ?thesis
  proof (cases "all_simple_paths g s t 10")
    case (Inl e)
    then have "find_all_paths g s t m = []" by (simp add: find_all_paths_def)
    then show ?thesis by (rule that(1))
  next
    case (Inr ps)
    with True show ?thesis by (intro that(2)[of ps]) (simp_all add: find_all_paths_def)
  qed
qed

text \<open>
  Claim C8. \<^verbatim>\<open>find_all_paths\<close> is a total function into lists: every exception of the
  enumeration is caught and answered by the empty list. Every entry is a simple path
  from start to end of at most 10 edges, its \<^verbatim>\<open>steps\<close> is its number of edges, and the
  entries are sorted by \<^verbatim>\<open>steps\<close>. The list is empty when an endpoint is not a node, and
  when the graph has no simple path from start to end of at most 10 edges.
\<close>

theorem find_all_paths_simple_sorted:
  "(\<forall>r \<in> set (find_all_paths g s t m). distinct (pr_path r) \<and> simple_path g s t (pr_path r)
        \<and> pr_steps r = int (length (pr_path r)) - 1 \<and> pr_steps r \<le> 10)
   \<and> sorted (map pr_steps (find_all_paths g s t m))
   \<and> (\<not> has_node g s \<or> \<not> has_node g t \<longrightarrow> find_all_paths g s t m = [])
   \<and> ((\<forall>p. simple_path g s t p \<longrightarrow> 10 + 1 < length p) \<longrightarrow> find_all_paths g s t m = [])"
proof (cases rule: find_all_paths_cases[of g s t m])
  case 1
  then show ?thesis by (auto simp: find_all_paths_def)
next
  case (2 ps)
  let ?sel = "slice_to m (sort_key length ps)"
  have sub: "set ?sel \<subseteq> set ps" using set_slice_to[of m "sort_key length ps"] by simp
  have snd: "simple_path g s t p \<and> length p \<le> 10 + 1" if "p \<in> set ?sel" for p
    using all_simple_paths_sound[OF 2(3) 2(2)] that sub by blast
  have a: "\<forall>r \<in> set (find_all_paths g s t m). distinct (pr_path r) \<and> simple_path g s t (pr_path r)
        \<and> pr_steps r = int (length (pr_path r)) - 1 \<and> pr_steps r \<le> 10"
    using snd unfolding 2(4) by (auto simp: path_entry_of_def simple_path_def)
  have "sorted (map length ?sel)"
    by (rule sorted_slice_to) simp
  then have "sorted (map (\<lambda>p. int (length p) - 1) ?sel)"
    unfolding sorted_map by (rule sorted_wrt_mono_rel[rotated]) simp
  then have b: "sorted (map pr_steps (find_all_paths g s t m))"
    unfolding 2(4) by (simp add: comp_def path_entry_of_def)
  have c: "find_all_paths g s t m = []" if "\<forall>p. simple_path g s t p \<longrightarrow> 10 + 1 < length p"
  proof -
    have "?sel = []"
    proof (cases ?sel)
      case Nil then show ?thesis .
    next
      case (Cons p rest)
      then have "p \<in> set ?sel" by simp
      with snd that show ?thesis by force
    qed
    then show ?thesis unfolding 2(4) by simp
  qed
  from a b c 2(1,2) show ?thesis by blast
qed

lemma find_all_paths_test_graph:
  "find_all_paths test_graph ''A'' ''D'' 5 =
     [\<lparr>pr_success = True, pr_error = None, pr_path = [''A'', ''D''], pr_distance = 4, pr_steps = 1\<rparr>,
      \<lparr>pr_success = True, pr_error = None, pr_path = [''A'', ''B'', ''C'', ''D''], pr_distance = 4,
        pr_steps = 3\<rparr>]"
  unfolding test_graph_eq
  by (simp add: find_all_paths_def all_simple_paths_def has_node_def nodes_of_def
      simple_paths_from.simps neighbors_def adj_def slice_to_def path_entry_of_def
      edge_attrs_def wt_def w_edge_def Let_def)

theorem find_all_paths_simple_sorted_witness:
  "find_all_paths test_graph ''A'' ''D'' 5 =
     [\<lparr>pr_success = True, pr_error = None, pr_path = [''A'', ''D''], pr_distance = 4, pr_steps = 1\<rparr>,
      \<lparr>pr_success = True, pr_error = None, pr_path = [''A'', ''B'', ''C'', ''D''], pr_distance = 4,
        pr_steps = 3\<rparr>]
   \<and> simple_path test_graph ''A'' ''D'' [''A'', ''B'', ''C'', ''D'']
   \<and> sorted (map pr_steps (find_all_paths test_graph ''A'' ''D'' 5))
   \<and> \<not> has_node test_graph ''E''
   \<and> find_all_paths test_graph ''A'' ''E'' 5 = []"
proof -
  have e: "\<not> has_node test_graph ''E''"
    by (simp add: test_graph_eq has_node_def nodes_of_def)
  from find_all_paths_simple_sorted[of test_graph "''A''" "''D''" 5]
    find_all_paths_simple_sorted[of test_graph "''A''" "''E''" 5] e
  show ?thesis by (simp add: find_all_paths_test_graph)
qed

section \<open>Properties of JohnsonPathfinder\<close>

lemma wf_graph_alt: "wf_graph g = (distinct (nodes_of g) \<and> inner_distinct g \<and> closed_adj g \<and> symmetric g)"
  by (simp add: wf_graph_def inner_distinct_def nodes_of_def)

text \<open>distinctness\<close>

lemma distinct_nodes_add_node: "distinct (nodes_of g) \<Longrightarrow> distinct (nodes_of (add_node g n upd))"
  by (auto simp: add_node_def nodes_of_map_entry has_node_def)

lemma distinct_nodes_add_edge: "distinct (nodes_of g) \<Longrightarrow> distinct (nodes_of (add_edge g u v upd))"
  by (auto simp: add_edge_def Let_def nodes_of_set_adj has_node_def)

lemma inner_distinct_map_entry:
  assumes "inner_distinct g" "\<And>a nb. distinct (map fst nb) \<Longrightarrow> distinct (map fst (snd (f (a, nb))))"
  shows "inner_distinct (AList.map_entry k f g)"
proof -
  have "\<forall>(n, a, nb) \<in> set (AList.map_entry k f g). distinct (map fst nb)"
    using assms(1) unfolding inner_distinct_def
  proof (induction g)
    case Nil
    then show ?case by simp
  next
    case (Cons x g)
    obtain n a nb where x: "x = (n, a, nb)" by (cases x) auto
    with Cons.prems have "distinct (map fst nb)" by simp
    from assms(2)[OF this, of a] Cons show ?case
      by (cases "f (a, nb)") (auto simp: x)
  qed
  then show ?thesis by (simp add: inner_distinct_def)
qed

lemma inner_distinct_set_adj: "inner_distinct g \<Longrightarrow> inner_distinct (set_adj g u v dd)"
  unfolding set_adj_def
  by (rule inner_distinct_map_entry) (auto simp: distinct_update)

lemma inner_distinct_append: "inner_distinct g \<Longrightarrow> inner_distinct (g @ [(n, a, [])])"
  by (auto simp: inner_distinct_def)

lemma inner_distinct_add_edge: "inner_distinct g \<Longrightarrow> inner_distinct (add_edge g u v upd)"
  by (auto simp: add_edge_def Let_def inner_distinct_set_adj inner_distinct_append)

lemma inner_distinct_add_node: "inner_distinct g \<Longrightarrow> inner_distinct (add_node g n upd)"
  unfolding add_node_def
  by (auto simp: inner_distinct_append intro!: inner_distinct_map_entry)

lemma wf_graph_add_node: "wf_graph g \<Longrightarrow> wf_graph (add_node g n upd)"
  by (simp add: wf_graph_alt distinct_nodes_add_node inner_distinct_add_node closed_adj_add_node
      symmetric_add_node)

lemma wf_graph_add_edge: "wf_graph g \<Longrightarrow> wf_graph (add_edge g u v upd)"
  by (simp add: wf_graph_alt distinct_nodes_add_edge inner_distinct_add_edge closed_adj_add_edge
      symmetric_add_edge)

lemma wf_graph_Nil: "wf_graph []"
  by (simp add: wf_graph_def closed_adj_def nbr_entries_def symmetric_def)

lemma wf_graph_connect_source: "wf_graph g \<Longrightarrow> wf_graph (connect_source g)"
  unfolding connect_source_def
  by (rule fold_preserves) (auto simp: wf_graph_add_edge)

text \<open>entries and edge_attrs in a wf graph\<close>

lemma nbr_entries_edge_attrs:
  assumes "distinct (nodes_of g)" "inner_distinct g" "(u, v, d) \<in> nbr_entries g"
  shows "edge_attrs g u v = Some d"
proof -
  from assms(3) obtain a nb where e: "(u, a, nb) \<in> set g" "(v, d) \<in> set nb"
    by (auto simp: nbr_entries_def)
  from e(1) assms(1) have "map_of g u = Some (a, nb)" by (simp add: nodes_of_def)
  moreover from e assms(2) have "distinct (map fst nb)" by (auto simp: inner_distinct_def)
  with e(2) have "map_of nb v = Some d" by simp
  ultimately show ?thesis by (simp add: edge_attrs_def adj_def)
qed

lemma arcs_nbr_entries: "set (arcs g) = (\<lambda>(u, v, d). (u, v, wt d)) ` nbr_entries g"
  by (force simp: arcs_def nbr_entries_def)


text \<open>Bellman-Ford\<close>

lemma relax_keeps_dom: "h x \<noteq> None \<Longrightarrow> relax a h x \<noteq> None"
  by (cases a) (auto simp: relax_def)

lemma fold_relax_keeps_dom: "h x \<noteq> None \<Longrightarrow> fold relax as h x \<noteq> None"
proof (induction as arbitrary: h)
  case Nil
  then show ?case by simp
next
  case (Cons a as)
  from Cons.prems have "relax a h x \<noteq> None" by (rule relax_keeps_dom)
  then have "fold relax as (relax a h) x \<noteq> None" by (rule Cons.IH)
  then show ?case by simp
qed

lemma rounds_keep_dom: "h x \<noteq> None \<Longrightarrow> ((fold relax as) ^^ n) h x \<noteq> None"
proof (induction n)
  case 0
  then show ?case by simp
next
  case (Suc n)
  then have "((fold relax as) ^^ n) h x \<noteq> None" by simp
  then have "fold relax as (((fold relax as) ^^ n) h) x \<noteq> None" by (rule fold_relax_keeps_dom)
  then show ?case by simp
qed


lemma bellman_ford_fixed:
  assumes "single_source_bellman_ford_path_length g s = Inr h"
  shows "h s \<noteq> None" "\<And>a. a \<in> set (arcs g) \<Longrightarrow> \<not> can_relax h a"
proof -
  from assms have h: "h = bellman_ford_rounds g s" and n: "\<not> list_ex (can_relax h) (arcs g)"
    by (auto simp: single_source_bellman_ford_path_length_def Let_def split: if_splits)
  show "h s \<noteq> None" unfolding h bellman_ford_rounds_def by (rule rounds_keep_dom) simp
  fix a assume "a \<in> set (arcs g)"
  with n show "\<not> can_relax h a" by (auto simp: list_ex_iff)
qed

lemma bellman_ford_constant:
  assumes bf: "single_source_bellman_ford_path_length g s = Inr h" and sl: "source_linked g s"
  shows "\<exists>x. h s = Some x \<and> (\<forall>v. has_node g v \<longrightarrow> h v = Some x)"
proof -
  from bellman_ford_fixed(1)[OF bf] obtain x where x: "h s = Some x" by auto
  have "h v = Some x" if "has_node g v" for v
  proof (cases "v = s")
    case True
    with x show ?thesis by simp
  next
    case False
    with sl that have a: "(s, v, 0) \<in> set (arcs g)" "(v, s, 0) \<in> set (arcs g)"
      by (auto simp: source_linked_def)
    from bellman_ford_fixed(2)[OF bf a(1)] x obtain y where y: "h v = Some y" "y \<le> x"
      by (auto simp: can_relax_def split: option.splits)
    from bellman_ford_fixed(2)[OF bf a(2)] x y have "x \<le> y"
      by (auto simp: can_relax_def split: option.splits)
    with y show ?thesis by simp
  qed
  with x show ?thesis by blast
qed










text \<open>the graph with the synthetic source\<close>

lemma nodes_of_add_edge_known:
  "has_node g u \<Longrightarrow> has_node g v \<Longrightarrow> nodes_of (add_edge g u v upd) = nodes_of g"
  by (simp add: add_edge_def Let_def nodes_of_set_adj)

lemma connect_source_fold: "connect_source g = fold link_step (nodes_of g) g"
proof -
  have "link_step = (\<lambda>node g. if node \<noteq> ''source'' then add_edge g ''source'' node zero_weight else g)"
    by (intro ext) (simp add: link_step_def)
  then show ?thesis by (simp add: connect_source_def)
qed

lemma nodes_of_fold_link:
  "has_node g ''source'' \<Longrightarrow> set ns \<subseteq> set (nodes_of g) \<Longrightarrow> nodes_of (fold link_step ns g) = nodes_of g"
proof (induction ns arbitrary: g)
  case Nil
  then show ?case by simp
next
  case (Cons n ns)
  have e: "nodes_of (link_step n g) = nodes_of g"
    using Cons.prems by (simp add: link_step_def nodes_of_add_edge_known has_node_def)
  with Cons.prems have "nodes_of (fold link_step ns (link_step n g)) = nodes_of (link_step n g)"
    by (intro Cons.IH) (simp_all add: has_node_def)
  with e show ?case by simp
qed

lemma nodes_of_connect_source:
  "has_node g ''source'' \<Longrightarrow> nodes_of (connect_source g) = nodes_of g"
  by (simp add: connect_source_fold nodes_of_fold_link)

lemma zero_linked_add_edge:
  "zero_linked g v \<Longrightarrow> zero_linked (add_edge g ''source'' u zero_weight) v"
  unfolding zero_linked_def edge_attrs_add_edge
  by (cases "v = u"; cases "v = ''source''"; cases "u = ''source''"; simp add: zero_weight_def)

lemma zero_linked_step: "zero_linked g v \<Longrightarrow> zero_linked (link_step u g) v"
  by (simp add: link_step_def zero_linked_add_edge)

lemma zero_linked_new: "v \<noteq> ''source'' \<Longrightarrow> zero_linked (link_step v g) v"
proof -
  have "zero_linked (add_edge g ''source'' v zero_weight) v"
    unfolding zero_linked_def edge_attrs_add_edge by (simp add: zero_weight_def)
  then show "v \<noteq> ''source'' \<Longrightarrow> zero_linked (link_step v g) v"
    by (simp add: link_step_def)
qed

lemma zero_linked_fold:
  "v \<in> set ns \<Longrightarrow> v \<noteq> ''source'' \<Longrightarrow> zero_linked (fold link_step ns g) v"
proof (induction ns arbitrary: g)
  case Nil
  then show ?case by simp
next
  case (Cons n ns)
  show ?case
  proof (cases "v \<in> set ns")
    case True
    with Cons show ?thesis by simp
  next
    case False
    with Cons.prems have "n = v" by simp
    with Cons.prems have "zero_linked (link_step n g) v" by (simp add: zero_linked_new)
    then have "zero_linked (fold link_step ns (link_step n g)) v"
      by (rule fold_preserves) (rule zero_linked_step)
    then show ?thesis by simp
  qed
qed

lemma zero_linked_arcs:
  assumes "zero_linked g v"
  shows "(''source'', v, 0) \<in> set (arcs g)" "(v, ''source'', 0) \<in> set (arcs g)"
proof -
  from assms obtain d d' where d: "edge_attrs g ''source'' v = Some d" "weight d = Some 0"
    "edge_attrs g v ''source'' = Some d'" "weight d' = Some 0"
    by (auto simp: zero_linked_def)
  from edge_attrs_nbr_entries[OF d(1)] d(2) show "(''source'', v, 0) \<in> set (arcs g)"
    by (force simp: arcs_nbr_entries wt_def)
  from edge_attrs_nbr_entries[OF d(3)] d(4) show "(v, ''source'', 0) \<in> set (arcs g)"
    by (force simp: arcs_nbr_entries wt_def)
qed

lemma has_node_with_source: "has_node (with_source g) v \<longleftrightarrow> v = ''source'' \<or> has_node g v"
proof -
  have "has_node (add_node g ''source'' id) ''source''" by (simp add: has_node_add_node)
  then have "nodes_of (with_source g) = nodes_of (add_node g ''source'' id)"
    unfolding with_source_def by (rule nodes_of_connect_source)
  then show ?thesis by (simp add: has_node_def nodes_of_add_node)
qed

lemma wf_graph_with_source: "wf_graph g \<Longrightarrow> wf_graph (with_source g)"
  by (simp add: with_source_def wf_graph_connect_source wf_graph_add_node)

lemma source_linked_with_source:
  assumes "wf_graph g"
  shows "source_linked (with_source g) ''source''"
proof -
  let ?g0 = "add_node g ''source'' id"
  have n: "nodes_of (with_source g) = nodes_of ?g0"
    unfolding with_source_def by (rule nodes_of_connect_source) (simp add: has_node_add_node)
  have "zero_linked (with_source g) v" if "has_node (with_source g) v" "v \<noteq> ''source''" for v
    unfolding with_source_def connect_source_fold
    using that n by (intro zero_linked_fold) (simp_all add: has_node_def)
  moreover from wf_graph_with_source[OF assms] have "closed_adj (with_source g)"
    by (simp add: wf_graph_def)
  ultimately show ?thesis
    by (auto simp: source_linked_def has_node_with_source dest: zero_linked_arcs)
qed





text \<open>the reweighting with a constant potential\<close>

lemma map_entry_triv: "map_of g k = Some x \<Longrightarrow> f x = x \<Longrightarrow> AList.map_entry k f g = g"
  by (induction g) (auto split: if_splits)

lemma set_adj_triv: "edge_attrs g u v = Some d \<Longrightarrow> set_adj g u v d = g"
proof -
  assume "edge_attrs g u v = Some d"
  then obtain a nb where m: "map_of g u = Some (a, nb)" "map_of nb v = Some d"
    by (auto simp: edge_attrs_def adj_def split: option.splits)
  from m(2) have "AList.update v d nb = nb" by (rule update_triv)
  with m(1) show ?thesis unfolding set_adj_def by (intro map_entry_triv) auto
qed

lemma reweight_edges_constant:
  assumes "\<forall>(u, v, d) \<in> set es. edge_attrs g u v = Some d \<and> edge_attrs g v u = Some d
             \<and> h u = Some x \<and> h v = Some x"
  shows "reweight_edges h es g =
           (g, if \<forall>(u, v, d) \<in> set es. weight d \<noteq> None then None else Some (KeyError ''weight''))"
  using assms
proof (induction es)
  case Nil
  then show ?case by simp
next
  case (Cons e es)
  obtain u v d where e: "e = (u, v, d)" by (cases e) auto
  with Cons.prems have a: "edge_attrs g u v = Some d" "edge_attrs g v u = Some d"
    "h u = Some x" "h v = Some x"
    by auto
  show ?case
  proof (cases "weight d")
    case None
    then show ?thesis by (auto simp: e)
  next
    case (Some w)
    then have "d\<lparr>weight := Some (w + (x - x))\<rparr> = d" by simp
    then have "set_adj (set_adj g u v (d\<lparr>weight := Some (w + (x - x))\<rparr>)) v u
                 (d\<lparr>weight := Some (w + (x - x))\<rparr>) = g"
      using a by (simp add: set_adj_triv)
    with Some a Cons show ?thesis by (simp add: e)
  qed
qed

lemma edges_from_iff:
  "(u, v, d) \<in> set (edges_from g seen) \<longleftrightarrow>
     (\<exists>g1 a nb g2. g = g1 @ (u, a, nb) # g2 \<and> (v, d) \<in> set nb \<and> v \<notin> set seen
        \<and> v \<notin> fst ` set g1)"
proof (induction g arbitrary: seen)
  case Nil
  then show ?case by simp
next
  case (Cons x g)
  obtain n a nb where x: "x = (n, a, nb)" by (cases x) auto
  show ?case
  proof
    assume "(u, v, d) \<in> set (edges_from (x # g) seen)"
    then consider "u = n" "(v, d) \<in> set nb" "v \<notin> set seen"
      | "(u, v, d) \<in> set (edges_from g (n # seen))"
      by (auto simp: x)
    then show "\<exists>g1 a nb g2. x # g = g1 @ (u, a, nb) # g2 \<and> (v, d) \<in> set nb \<and> v \<notin> set seen
        \<and> v \<notin> fst ` set g1"
    proof cases
      case 1
      then have "x # g = [] @ (u, a, nb) # g \<and> (v, d) \<in> set nb \<and> v \<notin> set seen
        \<and> v \<notin> fst ` set []"
        by (simp add: x)
      then show ?thesis by blast
    next
      case 2
      with Cons.IH[of "n # seen"] obtain g1 a' nb' g2 where
        s: "g = g1 @ (u, a', nb') # g2" "(v, d) \<in> set nb'" "v \<notin> set (n # seen)"
        "v \<notin> fst ` set g1"
        by blast
      then have "x # g = (x # g1) @ (u, a', nb') # g2 \<and> (v, d) \<in> set nb' \<and> v \<notin> set seen
        \<and> v \<notin> fst ` set (x # g1)"
        by (auto simp: x)
      then show ?thesis by blast
    qed
  next
    assume "\<exists>g1 a nb g2. x # g = g1 @ (u, a, nb) # g2 \<and> (v, d) \<in> set nb \<and> v \<notin> set seen
        \<and> v \<notin> fst ` set g1"
    then obtain g1 a' nb' g2 where
      s: "x # g = g1 @ (u, a', nb') # g2" "(v, d) \<in> set nb'" "v \<notin> set seen"
      "v \<notin> fst ` set g1"
      by blast
    show "(u, v, d) \<in> set (edges_from (x # g) seen)"
    proof (cases g1)
      case Nil
      with s show ?thesis by (auto simp: x)
    next
      case (Cons y g1')
      with s have "g = g1' @ (u, a', nb') # g2" "v \<notin> set (n # seen)" "v \<notin> fst ` set g1'"
        by (auto simp: x)
      with s(2) Cons.IH[of "n # seen"] have "(u, v, d) \<in> set (edges_from g (n # seen))"
        by blast
      then show ?thesis by (simp add: x)
    qed
  qed
qed

lemma edges_nbr_entries: "(u, v, d) \<in> set (edges g) \<Longrightarrow> (u, v, d) \<in> nbr_entries g"
proof -
  assume "(u, v, d) \<in> set (edges g)"
  then obtain g1 a nb g2 where "g = g1 @ (u, a, nb) # g2" "(v, d) \<in> set nb"
    unfolding edges_def edges_from_iff by blast
  then have "(u, a, nb) \<in> set g \<and> (v, d) \<in> set nb" by simp
  then show ?thesis unfolding nbr_entries_def by blast
qed






text \<open>the reweighting step\<close>

lemma with_source_entry_facts:
  assumes wf: "wf_graph g" and e: "(u, v, d) \<in> nbr_entries (with_source g)"
  shows "edge_attrs (with_source g) u v = Some d" "edge_attrs (with_source g) v u = Some d"
    "has_node (with_source g) u" "has_node (with_source g) v"
proof -
  let ?G = "with_source g"
  from wf_graph_with_source[OF wf] have w: "distinct (nodes_of ?G)" "inner_distinct ?G"
    "closed_adj ?G" "symmetric ?G"
    by (simp_all add: wf_graph_alt)
  from nbr_entries_edge_attrs[OF w(1,2) e] show a: "edge_attrs ?G u v = Some d" .
  with w(4) show "edge_attrs ?G v u = Some d" by (simp add: symmetric_def)
  from a show "has_node ?G u" by (intro has_edge_has_node[of _ _ v]) (simp add: has_edge_def)
  from e w(3) show "has_node ?G v" by (auto simp: closed_adj_def)
qed

lemma reweight_with_constant:
  assumes wf: "wf_graph g" and h: "\<And>v. has_node (with_source g) v \<Longrightarrow> h v = Some x"
  shows "reweight_edges h (edges (with_source g)) (with_source g) =
           (with_source g,
            if \<forall>(u, v, d) \<in> set (edges (with_source g)). weight d \<noteq> None then None
            else Some (KeyError ''weight''))"
proof (rule reweight_edges_constant, clarify)
  fix u v d assume "(u, v, d) \<in> set (edges (with_source g))"
  then have "(u, v, d) \<in> nbr_entries (with_source g)" by (rule edges_nbr_entries)
  from with_source_entry_facts[OF wf this] h
  show "edge_attrs (with_source g) u v = Some d \<and> edge_attrs (with_source g) v u = Some d
          \<and> h u = Some x \<and> h v = Some x"
    by simp
qed


lemma reweight_success:
  assumes wf: "wf_graph g" and r: "reweight g = (g', None)"
  obtains h x where
    "single_source_bellman_ford_path_length (with_source g) ''source'' = Inr h"
    "\<And>v. has_node (with_source g) v \<Longrightarrow> h v = Some x"
    "\<forall>(u, v, d) \<in> set (edges (with_source g)). weight d \<noteq> None"
    "remove_node (with_source g) ''source'' = Inr g'"
proof -
  let ?G = "with_source g"
  from r obtain h where bf: "single_source_bellman_ford_path_length ?G ''source'' = Inr h"
    by (cases "single_source_bellman_ford_path_length ?G ''source''")
       (auto simp: reweight_def with_source_def Let_def split: exn.splits)
  from bellman_ford_constant[OF bf source_linked_with_source[OF wf]]
  obtain x where x: "\<And>v. has_node ?G v \<Longrightarrow> h v = Some x" by blast
  note rw = reweight_with_constant[OF wf x]
  from r bf rw have w: "\<forall>(u, v, d) \<in> set (edges ?G). weight d \<noteq> None"
    by (auto simp: reweight_def with_source_def[symmetric] Let_def split: if_splits)
  with r bf rw have "remove_node ?G ''source'' = Inr g'"
    by (auto simp: reweight_def with_source_def[symmetric] Let_def split: sum.splits)
  with bf x w show ?thesis by (rule that)
qed

lemma neg_graph_eq:
  "neg_graph = [(''A'', empty_node, [(''B'', w_edge (- 1))]), (''B'', empty_node, [(''A'', w_edge (- 1))])]"
  by (simp add: neg_graph_def add_edge_def has_node_def nodes_of_def edge_attrs_def adj_def
      set_adj_def weight_attr_def empty_edge_def w_edge_def)

lemma connect_source_neg_graph:
  "connect_source (add_node neg_graph ''source'' id) = neg_graph_left"
  unfolding neg_graph_eq neg_graph_left_def
  by (simp add: connect_source_def add_node_def add_edge_def has_node_def nodes_of_def
      edge_attrs_def adj_def set_adj_def zero_weight_def empty_edge_def w_edge_def)

lemma bellman_ford_neg_graph:
  "single_source_bellman_ford_path_length neg_graph_left ''source''
     = Inl (NetworkXUnbounded ''Negative cycle detected.'')"
  by (simp add: single_source_bellman_ford_path_length_def neg_graph_left_def has_node_def
      nodes_of_def bellman_ford_rounds_def arcs_def wt_def w_edge_def relax_def can_relax_def
      numeral_2_eq_2)

text \<open>
  Claim C2 at the graph with the single edge A-B of weight -1: the call raises the
  ValueError, and the graph it leaves to the caller still holds the node \<^verbatim>\<open>'source'\<close>
  with its two edges of weight 0. The node is removed in step 5 only, which the raise
  in step 3 skips.
\<close>

theorem negative_cycle_leaves_source:
  "find_shortest_path neg_graph ''A'' ''B''
     = (neg_graph_left, Inl (ValueError ''Graph contains a negative-weight cycle''))
   \<and> has_node neg_graph_left ''source'' \<and> \<not> has_node neg_graph ''source''
   \<and> edge_attrs neg_graph_left ''source'' ''A'' = Some (w_edge 0)
   \<and> edge_attrs neg_graph ''A'' ''B'' = Some (w_edge (- 1))"
  by (simp add: find_shortest_path_def reweight_def connect_source_neg_graph bellman_ford_neg_graph)
     (simp add: neg_graph_left_def neg_graph_eq has_node_def nodes_of_def edge_attrs_def adj_def)

lemma calculate_path_distance_nonneg:
  "nonneg_weights g \<Longrightarrow> 0 \<le> calculate_path_distance g p"
  by (induction g p rule: calculate_path_distance.induct)
     (auto simp: nonneg_weights_def split: option.splits)


lemma nonneg_weights_add_edge:
  "nonneg_weights g \<Longrightarrow> 0 \<le> w \<Longrightarrow> nonneg_weights (add_edge g u v (weight_attr w))"
  unfolding nonneg_weights_def edge_attrs_add_edge
  by (auto simp: weight_attr_def wt_def split: if_splits)

lemma test_graph_wf: "wf_graph test_graph"
  unfolding test_graph_def by (intro wf_graph_add_edge wf_graph_Nil)


lemma test_graph_nonneg: "nonneg_weights test_graph"
  unfolding test_graph_def by (intro nonneg_weights_add_edge) (simp_all add: nonneg_weights_def)

lemma reweight_test_graph: "reweight test_graph = (test_graph, None)"
  unfolding test_graph_eq
  by (simp add: reweight_def connect_source_def add_node_def add_edge_def has_node_def
      nodes_of_def edge_attrs_def adj_def set_adj_def zero_weight_def empty_edge_def w_edge_def
      single_source_bellman_ford_path_length_def bellman_ford_rounds_def arcs_def wt_def
      relax_def can_relax_def eval_nat_numeral edges_def remove_node_def del_adj_def
      AList.delete_eq Let_def)

subsection \<open>The graph that a successful call leaves\<close>

lemma delete_absent: "k \<notin> fst ` set al \<Longrightarrow> AList.delete k al = al"
  by (induction al) auto

lemma without_node_map_entry_self: "without_node n (AList.map_entry n f g) = without_node n g"
  by (induction g) (auto simp: without_node_def AList.delete_eq case_prod_unfold)

lemma without_node_map_entry_upd:
  "without_node n (AList.map_entry v (\<lambda>(a, nb). (a, AList.update n dd nb)) g) = without_node n g"
  by (induction g) (auto simp: without_node_def AList.delete_update_same)

lemma without_node_set_adj:
  "u = n \<or> v = n \<Longrightarrow> without_node n (set_adj g u v dd) = without_node n g"
  unfolding set_adj_def
  using without_node_map_entry_self without_node_map_entry_upd by auto

lemma without_node_add_edge:
  assumes "has_node g n" "has_node g v"
  shows "without_node n (add_edge g n v upd) = without_node n g"
  using assms by (simp add: add_edge_def Let_def without_node_set_adj)

lemma without_node_link_step:
  "has_node g ''source'' \<Longrightarrow> has_node g v \<Longrightarrow>
   without_node ''source'' (link_step v g) = without_node ''source'' g"
  by (simp add: link_step_def without_node_add_edge)

lemma without_node_fold_link:
  "has_node g ''source'' \<Longrightarrow> set ns \<subseteq> set (nodes_of g) \<Longrightarrow>
   without_node ''source'' (fold link_step ns g) = without_node ''source'' g"
proof (induction ns arbitrary: g)
  case Nil
  then show ?case by simp
next
  case (Cons n ns)
  from Cons.prems have n: "has_node g n" by (simp add: has_node_def)
  have e: "nodes_of (link_step n g) = nodes_of g"
    using Cons.prems by (simp add: link_step_def nodes_of_add_edge_known has_node_def)
  with Cons.prems
  have "without_node ''source'' (fold link_step ns (link_step n g))
          = without_node ''source'' (link_step n g)"
    by (intro Cons.IH) (simp_all add: has_node_def)
  with without_node_link_step[OF Cons.prems(1) n] show ?case by simp
qed

lemma without_node_add_node: "without_node n (add_node g n upd) = without_node n g"
  by (simp add: add_node_def without_node_map_entry_self)
     (simp add: without_node_def AList.delete_eq)

lemma without_node_with_source:
  "without_node ''source'' (with_source g) = without_node ''source'' g"
proof -
  have "has_node (add_node g ''source'' id) ''source''" by (simp add: has_node_add_node)
  then have "without_node ''source'' (with_source g)
               = without_node ''source'' (add_node g ''source'' id)"
    unfolding with_source_def connect_source_fold by (intro without_node_fold_link) simp_all
  then show ?thesis by (simp add: without_node_add_node)
qed

lemma without_node_absent:
  assumes "\<not> has_node g n" "closed_adj g"
  shows "without_node n g = g"
proof -
  have "AList.delete n nb = nb" if "(m, a, nb) \<in> set g" for m a nb
  proof (rule delete_absent, rule notI)
    assume "n \<in> fst ` set nb"
    then obtain d where "(n, d) \<in> set nb" by auto
    with that have "(m, n, d) \<in> nbr_entries g" by (auto simp: nbr_entries_def)
    with assms(2) have "has_node g n" by (auto simp: closed_adj_def)
    with assms(1) show False ..
  qed
  then have "map (\<lambda>(m, a, nb). (m, a, AList.delete n nb)) g = map (\<lambda>x. x) g"
    by (intro map_cong) auto
  moreover from assms(1) have "AList.delete n g = g"
    by (intro delete_absent) (simp add: has_node_def nodes_of_def)
  ultimately show ?thesis by (simp add: without_node_def)
qed

lemma del_adj_as_map:
  "distinct (nodes_of g) \<Longrightarrow>
   del_adj n u g = map (\<lambda>(m, a, nb). (m, a, if m = u then AList.delete n nb else nb)) g"
proof (induction g)
  case Nil
  then show ?case by (simp add: del_adj_def)
next
  case (Cons p g)
  obtain m a nb where p: "p = (m, a, nb)" by (cases p)
  show ?case
  proof (cases "m = u")
    case True
    with Cons.prems p have "u \<notin> fst ` set g" by (simp add: nodes_of_def)
    then have "map (\<lambda>(m, a, nb). (m, a, if m = u then AList.delete n nb else nb)) g = map (\<lambda>x. x) g"
      by (intro map_cong) (auto simp: image_iff)
    with True p show ?thesis by (simp add: del_adj_def)
  next
    case False
    with Cons p show ?thesis by (simp add: del_adj_def nodes_of_def)
  qed
qed

lemma fold_del_adj_as_map:
  "distinct (nodes_of g) \<Longrightarrow>
   fold (del_adj n) ks g
     = map (\<lambda>(m, a, nb). (m, a, if m \<in> set ks then AList.delete n nb else nb)) g"
proof (induction ks arbitrary: g)
  case Nil
  then show ?case by simp
next
  case (Cons k ks)
  let ?g = "del_adj n k g"
  have d: "distinct (nodes_of ?g)"
    using Cons.prems by (simp add: del_adj_def nodes_of_map_entry)
  have "fold (del_adj n) ks ?g
          = map (\<lambda>(m, a, nb). (m, a, if m \<in> set ks then AList.delete n nb else nb)) ?g"
    by (rule Cons.IH[OF d])
  also have "\<dots> = map (\<lambda>(m, a, nb). (m, a, if m \<in> set (k # ks) then AList.delete n nb else nb)) g"
    unfolding del_adj_as_map[OF Cons.prems] by (auto simp: AList.delete_idem)
  finally show ?case by simp
qed

lemma delete_map_cong:
  assumes "\<And>m x. (m, x) \<in> set g \<Longrightarrow> m \<noteq> n \<Longrightarrow> f m x = h m x"
  shows "AList.delete n (map (\<lambda>(m, x). (m, f m x)) g) = AList.delete n (map (\<lambda>(m, x). (m, h m x)) g)"
  using assms by (induction g) auto

lemma remove_node_without:
  assumes wf: "wf_graph g" and n: "has_node g n"
  shows "remove_node g n = Inr (without_node n g)"
proof -
  from wf have w: "distinct (nodes_of g)" "inner_distinct g" "closed_adj g" "symmetric g"
    by (simp_all add: wf_graph_alt)
  from n obtain nbn where a: "adj g n = Some nbn" using adj_None_iff[of g n] by auto
  have k: "(if m \<in> set (map fst nbn) then AList.delete n nb else nb) = AList.delete n nb"
    if "(m, a, nb) \<in> set g" for m a nb
  proof (cases "n \<in> fst ` set nb")
    case False
    then show ?thesis by (simp add: delete_absent)
  next
    case True
    then obtain d where "(n, d) \<in> set nb" by auto
    with that have "(m, n, d) \<in> nbr_entries g" by (auto simp: nbr_entries_def)
    from nbr_entries_edge_attrs[OF w(1,2) this] w(4) have "edge_attrs g n m = Some d"
      by (simp add: symmetric_def)
    with a have "map_of nbn m = Some d" by (simp add: edge_attrs_def)
    then have "m \<in> set (map fst nbn)" by (auto dest: map_of_SomeD intro: rev_image_eqI)
    then show ?thesis by simp
  qed
  have "AList.delete n (fold (del_adj n) (map fst nbn) g) = without_node n g"
    unfolding fold_del_adj_as_map[OF w(1)] without_node_def
    using delete_map_cong[of g n "\<lambda>m (a, nb). (a, if m \<in> set (map fst nbn) then AList.delete n nb else nb)"
                            "\<lambda>m (a, nb). (a, AList.delete n nb)"] k
    by (auto simp: case_prod_unfold)
  with a show ?thesis by (simp add: remove_node_def)
qed

lemma reweight_removes_source:
  assumes wf: "wf_graph g" and r: "reweight g = (g', None)"
  shows "g' = without_node ''source'' g"
proof -
  from reweight_success[OF wf r] have "remove_node (with_source g) ''source'' = Inr g'"
    by blast
  moreover have "remove_node (with_source g) ''source'' = Inr (without_node ''source'' (with_source g))"
    by (intro remove_node_without wf_graph_with_source wf) (simp add: has_node_with_source)
  ultimately show ?thesis by (simp add: without_node_with_source)
qed

text \<open>
  The method keeps no copy: \<^verbatim>\<open>self.graph\<close> is the graph object of the caller, and steps
  1 to 5 add the source, link it, rewrite the weights and remove the source in that
  object. On a graph object without a node named \<^verbatim>\<open>'source'\<close> a call that succeeds
  leaves exactly the graph it was given: the same nodes with the same attributes, the
  same edges in the same order with the same attributes and weights. (The potentials
  that Bellman-Ford finds are all equal, so every weight is rewritten to itself.) The
  same holds for the reweighting alone.
\<close>

theorem successful_call_restores_graph:
  assumes "wf_graph g" and "\<not> has_node g ''source''"
  shows "(reweight g = (g', None) \<longrightarrow> g' = g)
       \<and> (find_shortest_path g s t = (g'', Inr r) \<longrightarrow> g'' = g)"
proof -
  from assms have c: "without_node ''source'' g = g"
    by (intro without_node_absent) (simp_all add: wf_graph_def)
  have 1: "g1 = g" if "reweight g = (g1, None)" for g1
    using reweight_removes_source[OF assms(1) that] c by simp
  have "g'' = g" if f: "find_shortest_path g s t = (g'', Inr r)"
  proof -
    obtain g1 e where rw: "reweight g = (g1, e)" by (cases "reweight g")
    with f have "e = None" "g'' = g1"
      by (auto simp: find_shortest_path_def split: option.splits)
    with rw 1 show ?thesis by simp
  qed
  with 1 show ?thesis by blast
qed

lemma find_shortest_path_test_graph:
  "find_shortest_path test_graph ''A'' ''D'' = (test_graph, Inr (found [''A'', ''D''] 4))"
  by (simp add: find_shortest_path_def reweight_test_graph query_def find_path_dijkstra_def
      shortest_path_weighted_def shortest_path_length_weighted_def has_node_test_graph
      shortest_path_test_graph shortest_path_length_test_graph)

theorem successful_call_restores_graph_witness:
  "wf_graph test_graph \<and> \<not> has_node test_graph ''source''
   \<and> reweight test_graph = (test_graph, None)
   \<and> find_shortest_path test_graph ''A'' ''D'' = (test_graph, Inr (found [''A'', ''D''] 4))"
proof -
  have n: "\<not> has_node test_graph ''source''"
    by (simp add: test_graph_eq has_node_def nodes_of_def)
  from successful_call_restores_graph[OF test_graph_wf n, of test_graph "''A''" "''D''" test_graph
      "found [''A'', ''D''] 4"]
    test_graph_wf n reweight_test_graph find_shortest_path_test_graph
  show ?thesis by simp
qed

lemma src_graph_eq:
  "src_graph = [(''source'', empty_node, [(''A'', w_edge 5)]),
                (''A'', empty_node, [(''source'', w_edge 5)])]"
  by (simp add: src_graph_def add_edge_def has_node_def nodes_of_def edge_attrs_def adj_def
      set_adj_def weight_attr_def empty_edge_def w_edge_def)

lemma reweight_src_graph: "reweight src_graph = ([(''A'', empty_node, [])], None)"
  unfolding src_graph_eq
  by (simp add: reweight_def connect_source_def add_node_def add_edge_def has_node_def
      nodes_of_def edge_attrs_def adj_def set_adj_def zero_weight_def empty_edge_def w_edge_def
      single_source_bellman_ford_path_length_def bellman_ford_rounds_def arcs_def wt_def
      relax_def can_relax_def eval_nat_numeral edges_def remove_node_def del_adj_def
      AList.delete_eq Let_def)

text \<open>
  Claim C3 at the graph with the single edge source - A of weight 5. A node of the
  caller that is itself named \<^verbatim>\<open>'source'\<close> is taken for the synthetic one: step 1 adds no
  node, step 2 sets the weight of its edge to 0, and step 5 removes it. The query from
  A to A succeeds, and the graph it leaves to the caller has the node A alone: the
  node \<^verbatim>\<open>'source'\<close> and its edge are gone, where the claim has the node set, the edge set
  and the weights of the caller's graph unchanged after a successful call.
\<close>

theorem own_source_node_is_removed:
  "find_shortest_path src_graph ''A'' ''A'' = ([(''A'', empty_node, [])], Inr (found [''A''] 0))
   \<and> nodes_of src_graph = [''source'', ''A'']
   \<and> edge_attrs src_graph ''A'' ''source'' = Some (w_edge 5)"
  by (simp add: find_shortest_path_def reweight_src_graph query_def find_path_dijkstra_def
      shortest_path_weighted_def shortest_path_length_weighted_def
      bidirectional_dijkstra_def dijkstra_path_length_def has_node_def nodes_of_def
      heappop_def entry_key_def adj_def wt_def sel_def put_def bidi_meet_def bidi_loop.simps
      dijkstra_loop.simps)
     (simp add: src_graph_eq edge_attrs_def adj_def)

section \<open>Shortest distances\<close>

subsection \<open>Walks\<close>

lemma walk_nonempty: "walk g p \<Longrightarrow> p \<noteq> []"
  by (cases p) auto

lemma walk_snoc: "walk g p \<Longrightarrow> has_edge g (last p) u \<Longrightarrow> walk g (p @ [u])"
  by (induction g p rule: walk.induct) auto

lemma distance_snoc:
  "p \<noteq> [] \<Longrightarrow>
   calculate_path_distance g (p @ [u])
     = calculate_path_distance g p + (case edge_attrs g (last p) u of None \<Rightarrow> 0 | Some d \<Rightarrow> wt d)"
  by (induction g p rule: calculate_path_distance.induct) auto

lemma walk_append:
  "walk g (p @ x # q) \<longleftrightarrow> walk g (p @ [x]) \<and> walk g (x # q)"
  by (induction g p rule: walk.induct) auto

lemma distance_append:
  "calculate_path_distance g (p @ x # q)
     = calculate_path_distance g (p @ [x]) + calculate_path_distance g (x # q)"
  by (induction g p rule: calculate_path_distance.induct) auto

lemma walk_crossing:
  "walk g p \<Longrightarrow> hd p \<in> S \<Longrightarrow> last p \<notin> S \<Longrightarrow>
   \<exists>p1 x y p2. p = p1 @ x # y # p2 \<and> x \<in> S \<and> y \<notin> S"
proof (induction g p rule: walk.induct)
  case (1 g)
  then show ?case by simp
next
  case (2 g v)
  then show ?case by simp
next
  case (3 g u v rest)
  show ?case
  proof (cases "v \<in> S")
    case False
    with 3(3) have "u # v # rest = [] @ u # v # rest \<and> u \<in> S \<and> v \<notin> S" by simp
    then show ?thesis by blast
  next
    case True
    with 3 obtain p1 x y p2 where "v # rest = p1 @ x # y # p2" "x \<in> S" "y \<notin> S" by auto
    then have "u # v # rest = (u # p1) @ x # y # p2 \<and> x \<in> S \<and> y \<notin> S" by simp
    then show ?thesis by blast
  qed
qed

lemma walk_weight_self: "walk_weight g s s 0"
  unfolding walk_weight_def walk_between_def by (intro exI[of _ "[s]"]) simp

lemma walk_weight_step:
  assumes "walk_weight g s v d" "edge_attrs g v u = Some e"
  shows "walk_weight g s u (d + wt e)"
proof -
  from assms(1) obtain p where p: "walk g p" "hd p = s" "last p = v" "calculate_path_distance g p = d"
    by (auto simp: walk_weight_def walk_between_def)
  from p(1) have ne: "p \<noteq> []" by (rule walk_nonempty)
  from p assms(2) have "walk g (p @ [u])" by (intro walk_snoc) (simp_all add: has_edge_def)
  moreover from ne p have "hd (p @ [u]) = s" by simp
  moreover from p assms(2) have "calculate_path_distance g (p @ [u]) = d + wt e"
    by (simp add: distance_snoc[OF ne])
  ultimately show ?thesis unfolding walk_weight_def walk_between_def by (intro exI[of _ "p @ [u]"]) simp
qed

lemma lower_bound_self: "nonneg_weights g \<Longrightarrow> lower_bound g s s 0"
  by (simp add: lower_bound_def calculate_path_distance_nonneg)

text \<open>
  The bound of the search: a walk from s that leaves the settled nodes crosses an edge
  from a settled node to one that is not, and the fringe holds an entry for it.
\<close>

lemma frontier_bound:
  assumes nn: "nonneg_weights g"
    and settled: "\<forall>v d. dst v = Some d \<longrightarrow> lower_bound g s v d"
    and frontier: "\<forall>v dv u e. dst v = Some dv \<longrightarrow> edge_attrs g v u = Some e \<longrightarrow> dst u = None \<longrightarrow>
            (\<exists>d' k. (d', k, u) \<in> set fringe \<and> d' \<le> dv + wt e)"
    and start: "dst s = None \<longrightarrow> (\<exists>k. (0, k, s) \<in> set fringe)"
    and least: "\<forall>d' k u. (d', k, u) \<in> set fringe \<longrightarrow> m \<le> d'"
    and w: "walk_between g s t p" and t: "dst t = None"
  shows "m \<le> calculate_path_distance g p"
proof (cases "dst s")
  case None
  with start least have "m \<le> 0" by blast
  with calculate_path_distance_nonneg[OF nn, of p] show ?thesis by simp
next
  case (Some ds)
  from w have p: "walk g p" "hd p = s" "last p = t" by (simp_all add: walk_between_def)
  with Some t have "hd p \<in> dom dst" "last p \<notin> dom dst" by auto
  from walk_crossing[OF p(1) this] obtain p1 x y p2
    where d: "p = p1 @ x # y # p2" "x \<in> dom dst" "y \<notin> dom dst" by blast
  from d(2) obtain dx where dx: "dst x = Some dx" by auto
  from d(3) have dy: "dst y = None" by auto
  from p(1) d(1) walk_append[of g p1 x "y # p2"]
  have w1: "walk g (p1 @ [x])" and w2: "walk g (x # y # p2)"
    by simp_all
  from w2 obtain e where e: "edge_attrs g x y = Some e" by (auto simp: has_edge_def)
  have "hd (p1 @ [x]) = s" using p(2) d(1) by (cases p1) simp_all
  with w1 have "walk_between g s x (p1 @ [x])" by (simp add: walk_between_def)
  with settled dx have 1: "dx \<le> calculate_path_distance g (p1 @ [x])"
    by (simp add: lower_bound_def)
  from frontier dx e dy obtain d' k' where "(d', k', y) \<in> set fringe" "d' \<le> dx + wt e"
    by blast
  with least have "m \<le> d'" "d' \<le> dx + wt e" by blast+
  then have 2: "m \<le> dx + wt e" by simp
  have "calculate_path_distance g p
          = calculate_path_distance g (p1 @ [x]) + (wt e + calculate_path_distance g (y # p2))"
    using distance_append[of g p1 x "y # p2"] e d(1) by simp
  with 1 2 calculate_path_distance_nonneg[OF nn, of "y # p2"] show ?thesis by simp
qed

subsection \<open>The loop of Dijkstra's search\<close>

lemma heappop_least:
  assumes "fringe \<noteq> []" "heappop entry_key fringe = ((d, k, v), rest)"
  shows "(d, k, v) \<in> set fringe" "rest = remove1 (d, k, v) fringe"
    "\<forall>d' k' u. (d', k', u) \<in> set fringe \<longrightarrow> d \<le> d'"
proof -
  from assms(2) have m: "arg_min_list entry_key fringe = (d, k, v)"
    and r: "rest = remove1 (d, k, v) fringe"
    by (auto simp: heappop_def Let_def)
  from arg_min_list_in[OF assms(1), of entry_key] m show "(d, k, v) \<in> set fringe" by simp
  from r show "rest = remove1 (d, k, v) fringe" .
  show "\<forall>d' k' u. (d', k', u) \<in> set fringe \<longrightarrow> d \<le> d'"
  proof (intro allI impI)
  fix d' k' u assume "(d', k', u) \<in> set fringe"
  then have "Min (entry_key ` set fringe) \<le> entry_key (d', k', u)" by (intro Min_le) simp_all
  with f_arg_min_list_f[OF assms(1), of entry_key] m
  have "entry_key (d, k, v) \<le> entry_key (d', k', u)" by simp
  then show "d \<le> d'" by (auto simp: entry_key_def less_eq_prod_def)
  qed
qed

lemma inv_facts:
  assumes "dijkstra_inv g s dst seen fringe"
  shows "\<And>v d. dst v = Some d \<Longrightarrow> walk_weight g s v d"
    "\<And>v d. dst v = Some d \<Longrightarrow> lower_bound g s v d"
    "\<And>d k v. (d, k, v) \<in> set fringe \<Longrightarrow> walk_weight g s v d"
    "\<And>d k v. (d, k, v) \<in> set fringe \<Longrightarrow> has_node g v"
    "\<And>u x. dst u = None \<Longrightarrow> seen u = Some x \<Longrightarrow> \<exists>k. (x, k, u) \<in> set fringe"
    "\<And>v dv u e. dst v = Some dv \<Longrightarrow> edge_attrs g v u = Some e \<Longrightarrow> dst u = None \<Longrightarrow>
            \<exists>d' k. (d', k, u) \<in> set fringe \<and> d' \<le> dv + wt e"
    "dst s = None \<Longrightarrow> \<exists>k. (0, k, s) \<in> set fringe"
  using assms unfolding dijkstra_inv_def by blast+

lemma inv_bounds:
  assumes "dijkstra_inv g s dst seen fringe"
  shows "\<forall>v d. dst v = Some d \<longrightarrow> lower_bound g s v d"
    "\<forall>v dv u e. dst v = Some dv \<longrightarrow> edge_attrs g v u = Some e \<longrightarrow> dst u = None \<longrightarrow>
            (\<exists>d' k. (d', k, u) \<in> set fringe \<and> d' \<le> dv + wt e)"
    "dst s = None \<longrightarrow> (\<exists>k. (0, k, s) \<in> set fringe)"
  using assms unfolding dijkstra_inv_def by blast+

lemma dijkstra_relax_ok:
  assumes nb: "\<forall>u e. (u, e) \<in> set nb \<longrightarrow> walk_weight g s u (dv + wt e) \<and> has_node g u"
    and settled: "\<And>u du. dst u = Some du \<Longrightarrow> lower_bound g s u du"
    and fr: "\<forall>d k v. (d, k, v) \<in> set fringe \<longrightarrow> walk_weight g s v d \<and> has_node g v"
    and sn: "\<forall>u x. dst u = None \<longrightarrow> seen u = Some x \<longrightarrow> (\<exists>k. (x, k, u) \<in> set fringe)"
  shows "\<exists>seen' fringe' c'.
           dijkstra_relax dst dv nb (seen, fringe, c) = Inr (seen', fringe', c')
         \<and> set fringe \<subseteq> set fringe'
         \<and> (\<forall>d k v. (d, k, v) \<in> set fringe' \<longrightarrow> walk_weight g s v d \<and> has_node g v)
         \<and> (\<forall>u x. dst u = None \<longrightarrow> seen' u = Some x \<longrightarrow> (\<exists>k. (x, k, u) \<in> set fringe'))
         \<and> (\<forall>u e. (u, e) \<in> set nb \<longrightarrow> dst u = None \<longrightarrow>
               (\<exists>d' k. (d', k, u) \<in> set fringe' \<and> d' \<le> dv + wt e))"
  using nb fr sn
proof (induction nb arbitrary: seen fringe c)
  case Nil
  then show ?case by simp
next
  case (Cons a nb)
  obtain u e where a: "a = (u, e)" by (cases a)
  let ?x = "dv + wt e"
  from Cons.prems(1) a have ue: "walk_weight g s u ?x" "has_node g u" by simp_all
  have nb': "\<forall>u e. (u, e) \<in> set nb \<longrightarrow> walk_weight g s u (dv + wt e) \<and> has_node g u"
    using Cons.prems(1) by simp
  show ?case
  proof (cases "dst u")
    case (Some du)
    from settled[OF Some] ue(1) have "du \<le> ?x"
      by (auto simp: lower_bound_def walk_weight_def)
    with Some a have eq: "dijkstra_relax dst dv (a # nb) (seen, fringe, c)
                 = dijkstra_relax dst dv nb (seen, fringe, c)"
      by (simp add: Let_def)
    from Cons.IH[where seen = seen and fringe = fringe and c = c, OF nb' Cons.prems(2,3)]
    obtain seen' fringe' c' where r:
      "dijkstra_relax dst dv nb (seen, fringe, c) = Inr (seen', fringe', c')"
      "set fringe \<subseteq> set fringe'"
      "\<forall>d k v. (d, k, v) \<in> set fringe' \<longrightarrow> walk_weight g s v d \<and> has_node g v"
      "\<forall>u x. dst u = None \<longrightarrow> seen' u = Some x \<longrightarrow> (\<exists>k. (x, k, u) \<in> set fringe')"
      "\<forall>u e. (u, e) \<in> set nb \<longrightarrow> dst u = None \<longrightarrow>
               (\<exists>d' k. (d', k, u) \<in> set fringe' \<and> d' \<le> dv + wt e)"
      by blast
    from r(5) Some a
    have cv: "\<forall>u' e'. (u', e') \<in> set (a # nb) \<longrightarrow> dst u' = None \<longrightarrow>
               (\<exists>d' k. (d', k, u') \<in> set fringe' \<and> d' \<le> dv + wt e')"
      by auto
    show ?thesis unfolding eq
      by (intro exI[of _ seen'] exI[of _ fringe'] exI[of _ c'] conjI r(1) r(2) r(3) r(4) cv)
  next
    case None
    show ?thesis
    proof (cases "seen u = None \<or> ?x < the (seen u)")
      case True
      let ?seen = "seen(u \<mapsto> ?x)" and ?fringe = "fringe @ [(?x, c, u)]"
      from True None a have eq: "dijkstra_relax dst dv (a # nb) (seen, fringe, c)
                 = dijkstra_relax dst dv nb (?seen, ?fringe, Suc c)"
        by (simp add: Let_def)
      have fr': "\<forall>d k v. (d, k, v) \<in> set ?fringe \<longrightarrow> walk_weight g s v d \<and> has_node g v"
        using Cons.prems(2) ue by auto
      have sn': "\<forall>w x. dst w = None \<longrightarrow> ?seen w = Some x \<longrightarrow> (\<exists>k. (x, k, w) \<in> set ?fringe)"
      proof (intro allI impI)
        fix w x assume w: "dst w = None" "?seen w = Some x"
        show "\<exists>k. (x, k, w) \<in> set ?fringe"
        proof (cases "w = u")
          case True
          with w have "x = ?x" by simp
          with True show ?thesis by auto
        next
          case False
          with w have "seen w = Some x" by simp
          with Cons.prems(3) w(1) show ?thesis by auto
        qed
      qed
      from Cons.IH[where seen = ?seen and fringe = ?fringe and c = "Suc c", OF nb' fr' sn']
      obtain seen' fringe' c' where r:
        "dijkstra_relax dst dv nb (?seen, ?fringe, Suc c) = Inr (seen', fringe', c')"
        "set ?fringe \<subseteq> set fringe'"
        "\<forall>d k v. (d, k, v) \<in> set fringe' \<longrightarrow> walk_weight g s v d \<and> has_node g v"
        "\<forall>u x. dst u = None \<longrightarrow> seen' u = Some x \<longrightarrow> (\<exists>k. (x, k, u) \<in> set fringe')"
        "\<forall>u e. (u, e) \<in> set nb \<longrightarrow> dst u = None \<longrightarrow>
               (\<exists>d' k. (d', k, u) \<in> set fringe' \<and> d' \<le> dv + wt e)"
        by blast
      from r(2) have sub: "set fringe \<subseteq> set fringe'" and new: "(?x, c, u) \<in> set fringe'" by auto
      from new have "\<exists>d' k. (d', k, u) \<in> set fringe' \<and> d' \<le> ?x" by (intro exI[of _ ?x] exI[of _ c]) simp
      with r(5) a
      have cv: "\<forall>u' e'. (u', e') \<in> set (a # nb) \<longrightarrow> dst u' = None \<longrightarrow>
               (\<exists>d' k. (d', k, u') \<in> set fringe' \<and> d' \<le> dv + wt e')"
        by auto
      show ?thesis unfolding eq
        by (intro exI[of _ seen'] exI[of _ fringe'] exI[of _ c'] conjI r(1) sub r(3) r(4) cv)
    next
      case False
      then obtain y where y: "seen u = Some y" "y \<le> ?x" by auto
      from y None a have eq: "dijkstra_relax dst dv (a # nb) (seen, fringe, c)
                 = dijkstra_relax dst dv nb (seen, fringe, c)"
        by (simp add: Let_def)
      from Cons.IH[where seen = seen and fringe = fringe and c = c, OF nb' Cons.prems(2,3)]
      obtain seen' fringe' c' where r:
        "dijkstra_relax dst dv nb (seen, fringe, c) = Inr (seen', fringe', c')"
        "set fringe \<subseteq> set fringe'"
        "\<forall>d k v. (d, k, v) \<in> set fringe' \<longrightarrow> walk_weight g s v d \<and> has_node g v"
        "\<forall>u x. dst u = None \<longrightarrow> seen' u = Some x \<longrightarrow> (\<exists>k. (x, k, u) \<in> set fringe')"
        "\<forall>u e. (u, e) \<in> set nb \<longrightarrow> dst u = None \<longrightarrow>
               (\<exists>d' k. (d', k, u) \<in> set fringe' \<and> d' \<le> dv + wt e)"
        by blast
      from Cons.prems(3) None y(1) r(2) y(2)
      have "\<exists>d' k. (d', k, u) \<in> set fringe' \<and> d' \<le> ?x" by blast
      with r(5) a
      have cv: "\<forall>u' e'. (u', e') \<in> set (a # nb) \<longrightarrow> dst u' = None \<longrightarrow>
               (\<exists>d' k. (d', k, u') \<in> set fringe' \<and> d' \<le> dv + wt e')"
        by auto
      show ?thesis unfolding eq
      by (intro exI[of _ seen'] exI[of _ fringe'] exI[of _ c'] conjI r(1) r(2) r(3) r(4) cv)
    qed
  qed
qed

lemma adj_entry_edge_attrs:
  assumes wf: "wf_graph g" and a: "adj g v = Some nb"
  shows "(u, e) \<in> set nb \<longleftrightarrow> edge_attrs g v u = Some e"
proof
  assume ue: "(u, e) \<in> set nb"
  from a obtain attr where "map_of g v = Some (attr, nb)" by (auto simp: adj_def)
  then have "(v, attr, nb) \<in> set g" by (rule map_of_SomeD)
  with ue have "(v, u, e) \<in> nbr_entries g" by (auto simp: nbr_entries_def)
  with wf show "edge_attrs g v u = Some e"
    by (intro nbr_entries_edge_attrs) (simp_all add: wf_graph_alt)
next
  assume "edge_attrs g v u = Some e"
  with a have "map_of nb u = Some e" by (simp add: edge_attrs_def)
  then show "(u, e) \<in> set nb" by (rule map_of_SomeD)
qed

lemma dijkstra_inv_skip:
  assumes inv: "dijkstra_inv g s dst seen fringe" and v: "dst v \<noteq> None"
  shows "dijkstra_inv g s dst seen (remove1 (d, k, v) fringe)"
proof -
  note i = inv_facts[OF inv]
  have keep: "(x, k', u) \<in> set (remove1 (d, k, v) fringe)"
    if "(x, k', u) \<in> set fringe" "dst u = None" for x k' u
    using that v by (subst in_set_remove1) auto
  have sub: "set (remove1 (d, k, v) fringe) \<subseteq> set fringe" by (rule set_remove1_subset)
  show ?thesis
    unfolding dijkstra_inv_def
  proof (intro conjI allI impI ballI)
    fix v d assume "dst v = Some d"
    with i(1,2) show "walk_weight g s v d" "lower_bound g s v d" by blast+
  next
    fix x assume "x \<in> set (remove1 (d, k, v) fringe)"
    with sub have "x \<in> set fringe" by blast
    with i(3,4) show "case x of (d, k, v) \<Rightarrow> walk_weight g s v d \<and> has_node g v"
      by (cases x) auto
  next
    fix u x assume "dst u = None" "seen u = Some x"
    with i(5) keep show "\<exists>k'. (x, k', u) \<in> set (remove1 (d, k, v) fringe)" by blast
  next
    fix v' dv u e assume "dst v' = Some dv" "edge_attrs g v' u = Some e" "dst u = None"
    with i(6) keep
    show "\<exists>d' k'. (d', k', u) \<in> set (remove1 (d, k, v) fringe) \<and> d' \<le> dv + wt e" by blast
  next
    assume "dst s = None"
    with i(7) keep show "\<exists>k'. (0, k', s) \<in> set (remove1 (d, k, v) fringe)" by blast
  qed
qed

lemma dijkstra_settle:
  assumes nn: "nonneg_weights g" and inv: "dijkstra_inv g s dst seen fringe"
    and m: "(d, k, v) \<in> set fringe" and least: "\<forall>d' k' u. (d', k', u) \<in> set fringe \<longrightarrow> d \<le> d'"
    and v: "dst v = None"
  shows "walk_weight g s v d" "lower_bound g s v d"
proof -
  note i = inv_facts[OF inv]
  from i(3)[OF m] show "walk_weight g s v d" .
  show "lower_bound g s v d"
    unfolding lower_bound_def
  proof (intro allI impI)
    fix p assume "walk_between g s v p"
    from frontier_bound[OF nn inv_bounds[OF inv] least this v]
    show "d \<le> calculate_path_distance g p" .
  qed
qed

lemma dijkstra_inv_step:
  assumes wf: "wf_graph g" and nn: "nonneg_weights g"
    and inv: "dijkstra_inv g s dst seen fringe"
    and m: "(d, k, v) \<in> set fringe" and least: "\<forall>d' k' u. (d', k', u) \<in> set fringe \<longrightarrow> d \<le> d'"
    and v: "dst v = None" and a: "adj g v = Some nb"
  shows "\<exists>seen' fringe' c'.
           dijkstra_relax (dst(v \<mapsto> d)) d nb (seen, remove1 (d, k, v) fringe, c)
             = Inr (seen', fringe', c')
         \<and> dijkstra_inv g s (dst(v \<mapsto> d)) seen' fringe'"
proof -
  note i = inv_facts[OF inv]
  note vw = dijkstra_settle[OF nn inv m least v]
  let ?dst = "dst(v \<mapsto> d)" and ?rest = "remove1 (d, k, v) fringe"
  have keep: "(x, k', u) \<in> set ?rest" if "(x, k', u) \<in> set fringe" "u \<noteq> v" for x k' u
    using that by (subst in_set_remove1) auto
  have sub: "set ?rest \<subseteq> set fringe" by (rule set_remove1_subset)
  have 1: "\<forall>u e. (u, e) \<in> set nb \<longrightarrow> walk_weight g s u (d + wt e) \<and> has_node g u"
  proof (intro allI impI)
    fix u e assume ue: "(u, e) \<in> set nb"
    with adj_entry_edge_attrs[OF wf a] have e: "edge_attrs g v u = Some e" by simp
    from edge_attrs_nbr_entries[OF e] wf have "has_node g u"
      by (auto simp: wf_graph_def closed_adj_def)
    with walk_weight_step[OF vw(1) e] show "walk_weight g s u (d + wt e) \<and> has_node g u" by simp
  qed
  have 2: "lower_bound g s u du" if "?dst u = Some du" for u du
    using that vw(2) i(2) by (cases "u = v") auto
  have 3: "\<forall>d k v. (d, k, v) \<in> set ?rest \<longrightarrow> walk_weight g s v d \<and> has_node g v"
    using sub i(3,4) by blast
  have 4: "\<forall>u x. ?dst u = None \<longrightarrow> seen u = Some x \<longrightarrow> (\<exists>k. (x, k, u) \<in> set ?rest)"
  proof (intro allI impI)
    fix u x assume u: "?dst u = None" "seen u = Some x"
    then have "u \<noteq> v" "dst u = None" by (auto split: if_splits)
    with i(5)[OF this(2) u(2)] keep show "\<exists>k. (x, k, u) \<in> set ?rest" by blast
  qed
  from dijkstra_relax_ok[of nb g s d ?dst ?rest seen c, OF 1 2 3 4]
  obtain seen' fringe' c' where r:
    "dijkstra_relax ?dst d nb (seen, ?rest, c) = Inr (seen', fringe', c')"
    "set ?rest \<subseteq> set fringe'"
    "\<forall>d k v. (d, k, v) \<in> set fringe' \<longrightarrow> walk_weight g s v d \<and> has_node g v"
    "\<forall>u x. ?dst u = None \<longrightarrow> seen' u = Some x \<longrightarrow> (\<exists>k. (x, k, u) \<in> set fringe')"
    "\<forall>u e. (u, e) \<in> set nb \<longrightarrow> ?dst u = None \<longrightarrow>
               (\<exists>d' k. (d', k, u) \<in> set fringe' \<and> d' \<le> d + wt e)"
    by blast
  have keep': "(x, k', u) \<in> set fringe'" if "(x, k', u) \<in> set fringe" "u \<noteq> v" for x k' u
    using keep[OF that] r(2) by blast
  have "dijkstra_inv g s ?dst seen' fringe'"
    unfolding dijkstra_inv_def
  proof (intro conjI allI impI ballI)
    fix u du assume "?dst u = Some du"
    then show "walk_weight g s u du" "lower_bound g s u du"
      using vw i(1,2) by (cases "u = v"; simp)+
  next
    fix x assume "x \<in> set fringe'"
    with r(3) show "case x of (d, k, v) \<Rightarrow> walk_weight g s v d \<and> has_node g v"
      by (cases x) auto
  next
    fix u x assume "?dst u = None" "seen' u = Some x"
    with r(4) show "\<exists>k. (x, k, u) \<in> set fringe'" by blast
  next
    fix x dx u e assume h: "?dst x = Some dx" "edge_attrs g x u = Some e" "?dst u = None"
    from h(3) have u: "u \<noteq> v" "dst u = None" by (auto split: if_splits)
    show "\<exists>d' k. (d', k, u) \<in> set fringe' \<and> d' \<le> dx + wt e"
    proof (cases "x = v")
      case True
      with h adj_entry_edge_attrs[OF wf a, of u e] have "(u, e) \<in> set nb" "dx = d" by simp_all
      with r(5) h(3) show ?thesis by blast
    next
      case False
      with h(1) have "dst x = Some dx" by simp
      from i(6)[OF this h(2) u(2)] keep' u(1) show ?thesis by blast
    qed
  next
    assume "?dst s = None"
    then have "s \<noteq> v" "dst s = None" by (auto split: if_splits)
    with i(7) keep' show "\<exists>k. (0, k, s) \<in> set fringe'" by blast
  qed
  with r(1) show ?thesis by blast
qed

lemma dijkstra_done:
  assumes nn: "nonneg_weights g" and inv: "dijkstra_inv g s dst seen []"
  shows "dijkstra_post g s t (Inr dst)"
proof (cases "dst t")
  case (Some d)
  with inv_facts(1,2)[OF inv] show ?thesis by (auto simp: dijkstra_post_def)
next
  case None
  note i = inv_facts[OF inv]
  have "\<not> (\<exists>p. walk_between g s t p)"
  proof
    assume "\<exists>p. walk_between g s t p"
    then obtain p where p: "walk_between g s t p" ..
    have False if "dst s = None" using i(7)[OF that] by simp
    then obtain ds where ds: "dst s = Some ds" by (cases "dst s") auto
    from p have w: "walk g p" "hd p = s" "last p = t" by (simp_all add: walk_between_def)
    with ds None have "hd p \<in> dom dst" "last p \<notin> dom dst" by auto
    from walk_crossing[OF w(1) this] obtain p1 x y p2
      where d: "p = p1 @ x # y # p2" "x \<in> dom dst" "y \<notin> dom dst" by blast
    from d(2) obtain dx where dx: "dst x = Some dx" by auto
    from d(3) have dy: "dst y = None" by auto
    from w(1) d(1) walk_append[of g p1 x "y # p2"] have "has_edge g x y" by simp
    then obtain e where "edge_attrs g x y = Some e" by (auto simp: has_edge_def)
    from i(6)[OF dx this dy] show False by simp
  qed
  with None show ?thesis by (simp add: dijkstra_post_def)
qed

lemma dijkstra_loop_correct:
  "wf_graph g \<Longrightarrow> nonneg_weights g \<Longrightarrow> dijkstra_inv g s dst seen fringe \<Longrightarrow>
   dijkstra_post g s t (dijkstra_loop g t dst seen fringe c)"
proof (induction g t dst seen fringe c rule: dijkstra_loop.induct)
  case (1 g target dst seen fringe c)
  note wf = "1.prems"(1) and nn = "1.prems"(2) and inv = "1.prems"(3)
  show ?case
  proof (cases "fringe = []")
    case True
    with dijkstra_done[OF nn] inv show ?thesis by (simp add: dijkstra_loop.simps)
  next
    case False
    obtain d k v rest where pop: "heappop entry_key fringe = ((d, k, v), rest)"
      by (metis prod.exhaust)
    note h = heappop_least[OF False pop]
    show ?thesis
    proof (cases "dst v")
      case (Some dv)
      then have "dijkstra_inv g s dst seen rest"
        unfolding h(2) by (intro dijkstra_inv_skip inv) simp
      moreover from Some have "dst v \<noteq> None" by simp
      ultimately have "dijkstra_post g s target (dijkstra_loop g target dst seen rest c)"
        by (intro "1.IH"(1)[OF False pop[symmetric] refl refl _ wf nn])
      with False pop Some show ?thesis by (simp add: dijkstra_loop.simps[of g target dst seen fringe])
    next
      case None
      note vw = dijkstra_settle[OF nn inv h(1) h(3) None]
      show ?thesis
      proof (cases "v = target")
        case True
        with vw have "dijkstra_post g s target (Inr (dst(v \<mapsto> d)))"
          by (simp add: dijkstra_post_def)
        with False pop None True show ?thesis
          by (simp add: dijkstra_loop.simps[of g target dst seen fringe])
      next
        case nt: False
        from inv_facts(4)[OF inv h(1)] obtain nb where a: "adj g v = Some nb"
          using adj_None_iff[of g v] by auto
        from dijkstra_inv_step[OF wf nn inv h(1) h(3) None a, where c = c]
        obtain seen' fringe' c' where r:
          "dijkstra_relax (dst(v \<mapsto> d)) d nb (seen, rest, c) = Inr (seen', fringe', c')"
          "dijkstra_inv g s (dst(v \<mapsto> d)) seen' fringe'"
          unfolding h(2)[symmetric] by blast
        from None have un: "\<not> dst v \<noteq> None" by simp
        have "dijkstra_post g s target (dijkstra_loop g target (dst(v \<mapsto> d)) seen' fringe' c')"
          by (rule "1.IH"(2)[OF False pop[symmetric] refl refl un nt a r(1) refl refl wf nn r(2)])
        with False pop None nt a r(1) show ?thesis
          by (simp add: dijkstra_loop.simps[of g target dst seen fringe])
      qed
    qed
  qed
qed

subsection \<open>\<^verbatim>\<open>get_shortest_distance\<close>\<close>

lemma dijkstra_inv_init:
  assumes "has_node g s"
  shows "dijkstra_inv g s Map.empty [s \<mapsto> 0] [(0, 0, s)]"
  using assms walk_weight_self[of g s]
  by (auto simp: dijkstra_inv_def split: if_splits)

lemma walk_stays_in_graph:
  "walk g p \<Longrightarrow> closed_adj g \<Longrightarrow> has_node g (hd p) \<Longrightarrow> has_node g (last p)"
proof (induction g p rule: walk.induct)
  case (3 g u v rest)
  from "3.prems"(1) obtain e where "edge_attrs g u v = Some e" by (auto simp: has_edge_def)
  from edge_attrs_nbr_entries[OF this] "3.prems"(2) have "has_node g v"
    by (auto simp: closed_adj_def)
  with 3 show ?case by simp
qed simp_all

lemma dijkstra_path_length_correct:
  assumes wf: "wf_graph g" and nn: "nonneg_weights g" and s: "has_node g s"
  shows "case dijkstra_path_length g s t of
           Inr d \<Rightarrow> walk_weight g s t d \<and> lower_bound g s t d
         | Inl e \<Rightarrow> e = NetworkXNoPath (''Node '' @ t @ '' not reachable from '' @ s)
                     \<and> \<not> (\<exists>p. walk_between g s t p)"
proof (cases "s = t")
  case True
  with s walk_weight_self[of g s] lower_bound_self[OF nn, of s] show ?thesis
    by (simp add: dijkstra_path_length_def)
next
  case False
  from dijkstra_loop_correct[OF wf nn dijkstra_inv_init[OF s], of t 1]
  obtain lengths where l:
    "dijkstra_loop g t Map.empty [s \<mapsto> 0] [(0, 0, s)] 1 = Inr lengths"
    "case lengths t of Some d \<Rightarrow> walk_weight g s t d \<and> lower_bound g s t d
                     | None \<Rightarrow> \<not> (\<exists>p. walk_between g s t p)"
    by (auto simp: dijkstra_post_def)
  with False s show ?thesis
    by (cases "lengths t") (simp_all add: dijkstra_path_length_def)
qed

text \<open>
  What \<^verbatim>\<open>get_shortest_distance\<close> returns. It handles NetworkXNoPath only. On a graph
  object whose weights are not negative: for a start that is not a node the
  NodeNotFound of networkx reaches the caller; for a start that is a node the call
  returns the least weight of a walk from start to end when there is one, and -1 when
  there is none, which is the case of an end that is not a node. The weight of a walk
  is the sum that \<^verbatim>\<open>_calculate_path_distance\<close> computes.
\<close>

theorem get_shortest_distance_correct:
  assumes "wf_graph g" and "nonneg_weights g"
  shows "(\<not> has_node g s \<longrightarrow>
            get_shortest_distance g s t = Inl (NodeNotFound (''Source '' @ s @ '' not in G'')))
       \<and> (has_node g s \<longrightarrow> (\<exists>p. walk_between g s t p) \<longrightarrow>
            (\<exists>d. get_shortest_distance g s t = Inr d
                 \<and> (\<exists>p. walk_between g s t p \<and> calculate_path_distance g p = d)
                 \<and> (\<forall>p. walk_between g s t p \<longrightarrow> d \<le> calculate_path_distance g p)))
       \<and> (has_node g s \<longrightarrow> \<not> (\<exists>p. walk_between g s t p) \<longrightarrow>
            get_shortest_distance g s t = Inr (- 1))
       \<and> (has_node g s \<longrightarrow> \<not> has_node g t \<longrightarrow> get_shortest_distance g s t = Inr (- 1))"
proof -
  have 1: "get_shortest_distance g s t = Inl (NodeNotFound (''Source '' @ s @ '' not in G''))"
    if "\<not> has_node g s"
    using that by (simp add: get_shortest_distance_def shortest_path_length_weighted_def)
  have c: "case dijkstra_path_length g s t of
             Inr d \<Rightarrow> walk_weight g s t d \<and> lower_bound g s t d
           | Inl e \<Rightarrow> e = NetworkXNoPath (''Node '' @ t @ '' not reachable from '' @ s)
                       \<and> \<not> (\<exists>p. walk_between g s t p)"
    if "has_node g s"
    using dijkstra_path_length_correct[OF assms that] .
  have 2: "\<exists>d. get_shortest_distance g s t = Inr d
              \<and> (\<exists>p. walk_between g s t p \<and> calculate_path_distance g p = d)
              \<and> (\<forall>p. walk_between g s t p \<longrightarrow> d \<le> calculate_path_distance g p)"
    if s: "has_node g s" and w: "\<exists>p. walk_between g s t p"
  proof (cases "dijkstra_path_length g s t")
    case (Inl e)
    with c[OF s] w show ?thesis by simp
  next
    case (Inr d)
    with c[OF s] have "walk_weight g s t d" "lower_bound g s t d" by simp_all
    moreover from Inr s have "get_shortest_distance g s t = Inr d"
      by (simp add: get_shortest_distance_def shortest_path_length_weighted_def)
    ultimately show ?thesis by (auto simp: walk_weight_def lower_bound_def)
  qed
  have 3: "get_shortest_distance g s t = Inr (- 1)"
    if s: "has_node g s" and w: "\<not> (\<exists>p. walk_between g s t p)"
  proof (cases "dijkstra_path_length g s t")
    case (Inl e)
    with c[OF s] s show ?thesis
      by (simp add: get_shortest_distance_def shortest_path_length_weighted_def)
  next
    case (Inr d)
    with c[OF s] w show ?thesis by (auto simp: walk_weight_def)
  qed
  have 4: "get_shortest_distance g s t = Inr (- 1)" if s: "has_node g s" and t: "\<not> has_node g t"
  proof (rule 3[OF s], rule notI)
    assume "\<exists>p. walk_between g s t p"
    then obtain p where "walk g p" "hd p = s" "last p = t" by (auto simp: walk_between_def)
    with walk_stays_in_graph[of g p] assms(1) s have "has_node g t" by (simp add: wf_graph_def)
    with t show False ..
  qed
  from 1 2 3 4 show ?thesis by blast
qed

lemma get_shortest_distance_test_graph: "get_shortest_distance test_graph ''A'' ''D'' = Inr 4"
  by (simp add: get_shortest_distance_def shortest_path_length_weighted_def has_node_test_graph
      shortest_path_length_test_graph)

theorem get_shortest_distance_correct_witness:
  "wf_graph test_graph \<and> nonneg_weights test_graph \<and> has_node test_graph ''A''
   \<and> walk_between test_graph ''A'' ''D'' [''A'', ''D'']
   \<and> get_shortest_distance test_graph ''A'' ''D'' = Inr 4
   \<and> lower_bound test_graph ''A'' ''D'' 4"
proof -
  have w: "walk_between test_graph ''A'' ''D'' [''A'', ''D'']"
    by (simp add: walk_between_def has_edge_def test_graph_eq edge_attrs_def adj_def)
  then have "\<exists>p. walk_between test_graph ''A'' ''D'' p" ..
  with get_shortest_distance_correct[OF test_graph_wf test_graph_nonneg, of "''A''" "''D''"]
    get_shortest_distance_test_graph has_node_test_graph(1)
  have "lower_bound test_graph ''A'' ''D'' 4" by (auto simp: lower_bound_def)
  with w test_graph_wf test_graph_nonneg has_node_test_graph(1) get_shortest_distance_test_graph
  show ?thesis by simp
qed

text \<open>
  Claim C9 at the test graph. For an end that is not a node the call returns -1, as
  the claim and the docstring (``shortest distance, or -1 if no path exists'') have it.
  For a start that is not a node \<^verbatim>\<open>nx.shortest_path_length\<close> raises NodeNotFound, which
  is not a NetworkXNoPath: the handler misses it and the exception leaves
  \<^verbatim>\<open>get_shortest_distance\<close>.
\<close>

theorem get_shortest_distance_unknown_start:
  "get_shortest_distance test_graph ''E'' ''A'' = Inl (NodeNotFound ''Source E not in G'')
   \<and> get_shortest_distance test_graph ''A'' ''E'' = Inr (- 1)
   \<and> \<not> has_node test_graph ''E''"
proof -
  have "dijkstra_path_length test_graph ''A'' ''E''
          = Inl (NetworkXNoPath ''Node E not reachable from A'')"
    unfolding test_graph_eq
    by (simp add: dijkstra_path_length_def has_node_def nodes_of_def heappop_def entry_key_def
        adj_def wt_def w_edge_def dijkstra_loop.simps Let_def)
  then show ?thesis
    by (simp add: get_shortest_distance_def shortest_path_length_weighted_def
        has_node_test_graph)
       (simp add: test_graph_eq has_node_def nodes_of_def)
qed

text \<open>
  With a negative weight the ValueError of networkx (``contradictory paths'') leaves
  \<^verbatim>\<open>get_shortest_distance\<close> as well.
\<close>

lemma neg_path_graph_eq:
  "neg_path_graph =
     [(''A'', empty_node, [(''B'', w_edge (- 1))]),
      (''B'', empty_node, [(''A'', w_edge (- 1)), (''C'', w_edge 1)]),
      (''C'', empty_node, [(''B'', w_edge 1)])]"
  by (simp add: neg_path_graph_def add_edge_def has_node_def nodes_of_def edge_attrs_def adj_def
      set_adj_def weight_attr_def empty_edge_def w_edge_def)

lemma get_shortest_distance_negative_weight:
  "get_shortest_distance neg_path_graph ''A'' ''C''
     = Inl (ValueError ''('Contradictory paths found:', 'negative weights?')'')"
  unfolding neg_path_graph_eq
  by (simp add: get_shortest_distance_def shortest_path_length_weighted_def
      dijkstra_path_length_def has_node_def nodes_of_def heappop_def entry_key_def
      adj_def wt_def w_edge_def dijkstra_loop.simps Let_def)

section \<open>The outcome of the reweighting\<close>


















section \<open>Totality of \<^verbatim>\<open>find_path\<close>\<close>

subsection \<open>The breadth-first search returns\<close>









subsection \<open>A search of A* that does not return\<close>














subsection \<open>The results of \<^verbatim>\<open>find_path\<close>\<close>


lemma handle_shape:
  "(\<exists>p d. handle s t r = found p d) \<or> (\<exists>m. m \<noteq> [] \<and> handle s t r = failure m)
   \<or> (\<exists>res. r = Inr res \<and> handle s t r = res)"
  by (cases r) (auto simp: handle_def split: exn.splits)







end
